theory Spec2Isabelle
  imports Complex_Main
begin

section \<open>Scalars, collaborators and search state\<close>

text \<open>
  The sampler of \<^verbatim>\<open>descartes_railed_sampler.hpp\<close> is embedded function by function.
  \<^verbatim>\<open>double\<close> and \<^verbatim>\<open>FloatType\<close> values are read as \<^typ>\<open>real\<close>, so the casts
  between the two are identities and comparisons are the exact order. The one place where the
  sampler itself computes with doubles, the count of line 80, is rounded as IEEE 754 does
  (\<open>round_double\<close> below). \<^verbatim>\<open>Eigen::Isometry3d\<close> is a type parameter \<open>'p\<close> whose
  three operations used by the sampler (inverse, product, norm of the translation part) are
  fields of the sampler record, next to the kinematics, collision and validity collaborators
  the constructor stores. The collaborators are functions: asked the same question twice,
  they give the same answer.

  Behaviour the C++ leaves undefined is a \<open>fault\<close> of the model: calling through the null
  \<^verbatim>\<open>collision_\<close> pointer, the integer division by a zero \<^verbatim>\<open>robot_dof\<close>, an index
  beyond a vector, the conversion of an infinite, NaN or too large quotient to \<^verbatim>\<open>int\<close>,
  and a negative size given to \<^verbatim>\<open>LinSpaced\<close>.
\<close>

datatype fault =
    NullCollision
  | DivideByZero
  | IndexOutOfRange
  | UndefinedConversion
  | NegativeSize

text \<open>
  The calls to collaborators that the properties below count or exclude are logged, in the
  order they happen: \<^verbatim>\<open>calcFwdKin\<close> with its joint vector, \<^verbatim>\<open>calcInvKin\<close> with its
  target pose, \<^verbatim>\<open>collision_->distance\<close> with its vertex.
\<close>

datatype 'p call =
    is_FwdKin: FwdKin "real list"
  | is_InvKin: InvKin 'p
  | is_Distance: Distance "real list"

record collision_interface =
  coll_validate :: "real list \<Rightarrow> nat \<Rightarrow> bool"
  coll_distance :: "real list \<Rightarrow> nat \<Rightarrow> real"

record 'p sampler =
  tool_pose :: 'p
  tool_pose_sampler :: "'p \<Rightarrow> 'p list"
  railed_calcFwdKin :: "real list \<Rightarrow> 'p option"
  railed_numJoints :: nat
  railed_limits :: "(real \<times> real) list"
  robot_calcInvKin :: "'p \<Rightarrow> real list \<Rightarrow> real list option"
  robot_numJoints :: nat
  collision :: "collision_interface option"
  world_to_railed_base :: 'p
  railed_sample_resolution :: "real list"
  robot_tcp :: 'p
  robot_reach :: real
  allow_collision :: bool
  is_valid :: "real list \<Rightarrow> bool"
  iso_inverse :: "'p \<Rightarrow> 'p"
  iso_mul :: "'p \<Rightarrow> 'p \<Rightarrow> 'p"
  iso_translation_norm :: "'p \<Rightarrow> real"

text \<open>The members \<^verbatim>\<open>dof_\<close> and \<^verbatim>\<open>ik_seed_\<close> set by the constructor.\<close>

definition dof :: "'p sampler \<Rightarrow> nat" where
  "dof s = railed_numJoints s + robot_numJoints s"

definition ik_seed :: "'p sampler \<Rightarrow> real list" where
  "ik_seed s = replicate (dof s) 0"

text \<open>
  \<^verbatim>\<open>std::numeric_limits<double>::min()\<close>: the smallest positive normalised double,
  \<open>2\<^sup>-\<^sup>1\<^sup>0\<^sup>2\<^sup>2\<close>.
\<close>

definition numeric_limits_min :: real where
  "numeric_limits_min = 1 / 2 ^ 1022"

text \<open>
  What the search threads by reference: the flat solution set, the best distance so far,
  and the log of collaborator calls.
\<close>

record 'p search =
  solution_set :: "real list"
  distance :: real
  calls :: "'p call list"

text \<open>A \<^verbatim>\<open>for\<close> loop whose body may fault: the first fault ends the run.\<close>

fun for_each :: "('a \<Rightarrow> 'st \<Rightarrow> fault + 'st) \<Rightarrow> 'a list \<Rightarrow> 'st \<Rightarrow> fault + 'st" where
  "for_each body [] st = Inr st"
| "for_each body (x # xs) st =
     (case body x st of Inl e \<Rightarrow> Inl e | Inr st' \<Rightarrow> for_each body xs st')"

section \<open>Rail grid\<close>

text \<open>
  \<^verbatim>\<open>Eigen::VectorXd::LinSpaced(size, low, high)\<close> belongs to the Eigen library, not to
  this repository. It is taken as Eigen documents it: \<open>size\<close> equally spaced values of the
  closed interval from \<open>low\<close> to \<open>high\<close>, the single value \<open>high\<close> when \<open>size\<close> is 1,
  and the empty vector when \<open>size\<close> is 0. Eigen (from 3.3 on) returns the two end values
  as they are given; the values in between are taken without rounding.
\<close>

definition LinSpaced :: "nat \<Rightarrow> real \<Rightarrow> real \<Rightarrow> real list" where
  "LinSpaced n low high =
     (if n = 1 then [high]
      else map (\<lambda>i. low + real i * ((high - low) / real (n - 1))) [0..<n])"

definition INT_MAX :: int where
  "INT_MAX = 2 ^ 31 - 1"

text \<open>
  Double arithmetic. A double is \<open>m * 2\<^sup>e\<^sup>-\<^sup>5\<^sup>2\<close> with \<open>|m| < 2\<^sup>5\<^sup>3\<close> and
  \<open>-1022 \<le> e \<le> 1023\<close>; an operation returns the exact result rounded to the nearest
  double, ties to the even \<open>m\<close>, and infinity beyond the largest double. \<open>binade x\<close> is
  the \<open>e\<close> with \<open>2\<^sup>e \<le> |x| < 2\<^sup>e\<^sup>+\<^sup>1\<close>, found by halving or doubling; the search is cut
  after 1100 steps, beyond which the exponent is below the subnormal range or above the
  overflow threshold anyway. \<open>round_double\<close> is \<open>None\<close> where the result is infinite.
\<close>

fun scale_exponent :: "nat \<Rightarrow> real \<Rightarrow> int \<Rightarrow> int" where
  "scale_exponent 0 x e = e"
| "scale_exponent (Suc n) x e =
     (if 2 \<le> x then scale_exponent n (x / 2) (e + 1)
      else if x < 1 then scale_exponent n (2 * x) (e - 1)
      else e)"

definition binade :: "real \<Rightarrow> int" where
  "binade x = scale_exponent 1100 \<bar>x\<bar> 0"

definition round_half_even :: "real \<Rightarrow> int" where
  "round_half_even y =
     (let f = \<lfloor>y\<rfloor>; d = y - of_int f
      in if d < 1 / 2 then f else if 1 / 2 < d then f + 1 else if even f then f else f + 1)"

definition DBL_MAX :: real where
  "DBL_MAX = (2 ^ 53 - 1) * 2 ^ 971"

definition round_double :: "real \<Rightarrow> real option" where
  "round_double x =
     (let e = max (binade x) (- 1022);
          q = (if 52 \<le> e then 2 ^ nat (e - 52) else 1 / 2 ^ nat (52 - e));
          r = of_int (round_half_even (x / q)) * q
      in if DBL_MAX < \<bar>r\<bar> then None else Some r)"

text \<open>
  Lines 80-81, the body of the loop over the rail joints: the count and the grid of joint
  \<open>d\<close>. The difference and the quotient are double operations; \<^verbatim>\<open>std::abs\<close> and
  \<^verbatim>\<open>std::ceil\<close> are exact. An infinite difference or quotient, and a zero resolution
  (quotient infinite or NaN), have no defined conversion to \<^verbatim>\<open>int\<close>.
\<close>

definition dof_cnt :: "'p sampler \<Rightarrow> nat \<Rightarrow> fault + int" where
  "dof_cnt s d =
     (if length (railed_limits s) \<le> d \<or> length (railed_sample_resolution s) \<le> d
      then Inl IndexOutOfRange
      else let low = fst (railed_limits s ! d);
               high = snd (railed_limits s ! d);
               res = railed_sample_resolution s ! d
           in (case round_double (high - low) of
                 None \<Rightarrow> Inl UndefinedConversion
               | Some diff \<Rightarrow>
                   (if res = 0 then Inl UndefinedConversion
                    else (case round_double (\<bar>diff\<bar> / res) of
                            None \<Rightarrow> Inl UndefinedConversion
                          | Some quot \<Rightarrow>
                              (let cnt = \<lceil>quot\<rceil>
                               in if cnt < - INT_MAX - 1 \<or> INT_MAX < cnt
                                  then Inl UndefinedConversion
                                  else Inr cnt)))))"

definition dof_grid :: "'p sampler \<Rightarrow> nat \<Rightarrow> fault + real list" where
  "dof_grid s d =
     (case dof_cnt s d of
        Inl e \<Rightarrow> Inl e
      | Inr cnt \<Rightarrow>
          if cnt < 0 then Inl NegativeSize
          else Inr (LinSpaced (nat cnt) (fst (railed_limits s ! d)) (snd (railed_limits s ! d))))"

text \<open>Lines 76-82: \<^verbatim>\<open>dof_range\<close>, one grid per rail joint, pushed in joint order.\<close>

fun dof_ranges :: "'p sampler \<Rightarrow> nat list \<Rightarrow> fault + real list list" where
  "dof_ranges s [] = Inr []"
| "dof_ranges s (d # ds) =
     (case dof_grid s d of
        Inl e \<Rightarrow> Inl e
      | Inr g \<Rightarrow> (case dof_ranges s ds of Inl e \<Rightarrow> Inl e | Inr gs \<Rightarrow> Inr (g # gs)))"

definition build_dof_range :: "'p sampler \<Rightarrow> fault + real list list" where
  "build_dof_range s = dof_ranges s [0..<railed_numJoints s]"

section \<open>The search\<close>

definition isCollisionFree :: "'p sampler \<Rightarrow> real list \<Rightarrow> bool" where
  "isCollisionFree s vertex =
     (case collision s of None \<Rightarrow> True | Some c \<Rightarrow> coll_validate c vertex (dof s))"

text \<open>
  Lines 154-178, the body of the loop over the branches returned by inverse kinematics:
  branch \<open>i\<close> is the \<open>i\<close>-th block of \<open>robot_dof\<close> scalars.
\<close>

definition ikAt_branch ::
  "'p sampler \<Rightarrow> real list \<Rightarrow> real list \<Rightarrow> bool \<Rightarrow> nat \<Rightarrow> 'p search \<Rightarrow> fault + 'p search" where
  "ikAt_branch s railed_pose robot_solution_set get_best_solution i st =
     (let robot_dof = robot_numJoints s;
          sol = take robot_dof (drop (robot_dof * i) robot_solution_set);
          full_sol = railed_pose @ sol
      in if \<not> is_valid s full_sol then Inr st
         else if \<not> get_best_solution then
           (if isCollisionFree s full_sol
            then Inr (st\<lparr>solution_set := solution_set st @ full_sol\<rparr>)
            else Inr st)
         else
           (case collision s of
              None \<Rightarrow> Inl NullCollision
            | Some c \<Rightarrow>
                (let cur_distance = coll_distance c full_sol (length full_sol);
                     st1 = st\<lparr>calls := calls st @ [Distance full_sol]\<rparr>
                 in if cur_distance > distance st1
                    then Inr (st1\<lparr>distance := cur_distance,
                                  solution_set := full_sol @ solution_set st1\<rparr>)
                    else Inr st1)))"

definition ikAt ::
  "'p sampler \<Rightarrow> 'p \<Rightarrow> real list \<Rightarrow> bool \<Rightarrow> 'p search \<Rightarrow> fault + (bool \<times> 'p search)" where
  "ikAt s p railed_pose get_best_solution st =
     (let st1 = st\<lparr>calls := calls st @ [FwdKin railed_pose]\<rparr>
      in case railed_calcFwdKin s railed_pose of
           None \<Rightarrow> Inr (False, st1)
         | Some rail_tf \<Rightarrow>
             (let robot_tool_pose = iso_mul s (iso_inverse s rail_tf) p
              in if iso_translation_norm s robot_tool_pose > robot_reach s then Inr (False, st1)
                 else
                   (let robot_dof = robot_numJoints s;
                        st2 = st1\<lparr>calls := calls st1 @ [InvKin robot_tool_pose]\<rparr>
                    in case robot_calcInvKin s robot_tool_pose (ik_seed s) of
                         None \<Rightarrow> Inr (False, st2)
                       | Some robot_solution_set \<Rightarrow>
                           (if robot_dof = 0 then Inl DivideByZero
                            else
                              (let num_sols = length robot_solution_set div robot_dof
                               in (case for_each
                                          (ikAt_branch s railed_pose robot_solution_set
                                             get_best_solution)
                                          [0..<num_sols] st2 of
                                     Inl e \<Rightarrow> Inl e
                                   | Inr st3 \<Rightarrow> Inr (solution_set st3 \<noteq> [], st3)))))))"

text \<open>
  \<^verbatim>\<open>nested_ik\<close>: one loop per rail joint. \<^verbatim>\<open>sample_pose\<close> is written at
  \<open>loop_level\<close> before each deeper call; what deeper levels leave in it is overwritten
  before \<^verbatim>\<open>ikAt\<close> reads it, so it is passed by value.
\<close>

function nested_ik ::
  "'p sampler \<Rightarrow> nat \<Rightarrow> real list list \<Rightarrow> 'p \<Rightarrow> real list \<Rightarrow> bool \<Rightarrow> 'p search
     \<Rightarrow> fault + 'p search" where
  "nested_ik s loop_level dof_range p sample_pose get_best_solution st =
     (if loop_level \<ge> railed_numJoints s
      then (case ikAt s p sample_pose get_best_solution st of
              Inl e \<Rightarrow> Inl e
            | Inr r \<Rightarrow> Inr (snd r))
      else if length dof_range \<le> loop_level then Inl IndexOutOfRange
      else for_each
             (\<lambda>v st'. nested_ik s (loop_level + 1) dof_range p
                        (sample_pose[loop_level := v]) get_best_solution st')
             (dof_range ! loop_level) st)"
  by pat_completeness auto
termination
  by (relation "measure (\<lambda>(s, loop_level, _). railed_numJoints s - loop_level)") auto

text \<open>
  Lines 85-91 and 191-197: the loop over the tool-pose candidates, the same in
  \<^verbatim>\<open>sample\<close> (flag false) and \<^verbatim>\<open>getBestSolution\<close> (flag true). Each candidate is
  expressed in the rail frame and searched from a fresh \<^verbatim>\<open>railed_pose\<close> vector.
\<close>

definition rail_frame :: "'p sampler \<Rightarrow> 'p \<Rightarrow> 'p" where
  "rail_frame s tp =
     iso_mul s (iso_mul s (iso_inverse s (world_to_railed_base s)) tp)
       (iso_inverse s (robot_tcp s))"

definition tool_poses_loop ::
  "'p sampler \<Rightarrow> 'p list \<Rightarrow> real list list \<Rightarrow> bool \<Rightarrow> 'p search \<Rightarrow> fault + 'p search" where
  "tool_poses_loop s tool_poses dof_range get_best_solution st =
     for_each
       (\<lambda>tp st'. nested_ik s 0 dof_range (rail_frame s tp)
                    (replicate (railed_numJoints s) 0) get_best_solution st')
       tool_poses st"

text \<open>
  \<^verbatim>\<open>getBestSolution\<close> has its own \<^verbatim>\<open>distance\<close>, started at
  \<^verbatim>\<open>numeric_limits<double>::min()\<close>; the caller's is untouched.
\<close>

definition getBestSolution ::
  "'p sampler \<Rightarrow> 'p list \<Rightarrow> real list list \<Rightarrow> 'p search \<Rightarrow> fault + (bool \<times> 'p search)" where
  "getBestSolution s tool_poses dof_range st =
     (case tool_poses_loop s tool_poses dof_range True (st\<lparr>distance := numeric_limits_min\<rparr>) of
        Inl e \<Rightarrow> Inl e
      | Inr st' \<Rightarrow> Inr (solution_set st' \<noteq> [], st'\<lparr>distance := distance st\<rparr>))"

definition init_search :: "real list \<Rightarrow> 'p search" where
  "init_search ss = \<lparr>solution_set = ss, distance = numeric_limits_min, calls = []\<rparr>"

definition sample :: "'p sampler \<Rightarrow> real list \<Rightarrow> fault + (bool \<times> 'p search)" where
  "sample s ss =
     (case build_dof_range s of
        Inl e \<Rightarrow> Inl e
      | Inr dof_range \<Rightarrow>
          (let tool_poses = tool_pose_sampler s (tool_pose s)
           in (case tool_poses_loop s tool_poses dof_range False (init_search ss) of
                 Inl e \<Rightarrow> Inl e
               | Inr st \<Rightarrow>
                   (if solution_set st = [] \<and> allow_collision s
                    then (case getBestSolution s tool_poses dof_range st of
                            Inl e \<Rightarrow> Inl e
                          | Inr r \<Rightarrow> Inr (solution_set (snd r) \<noteq> [], snd r))
                    else Inr (solution_set st \<noteq> [], st)))))"

section \<open>Configurations and observations used by the properties\<close>

text \<open>
  A configuration on which the sampler has no undefined behaviour: limits and resolution
  cover every rail joint, every resolution is positive, the difference of the bounds and its
  quotient by the resolution are finite doubles with a ceiling that fits \<^verbatim>\<open>int\<close>, and
  the robot has at least one joint.
\<close>

definition well_formed :: "'p sampler \<Rightarrow> bool" where
  "well_formed s =
     (railed_numJoints s \<le> length (railed_limits s) \<and>
      railed_numJoints s \<le> length (railed_sample_resolution s) \<and>
      0 < robot_numJoints s \<and>
      list_all
        (\<lambda>d. 0 < railed_sample_resolution s ! d \<and>
             (case round_double (snd (railed_limits s ! d) - fst (railed_limits s ! d)) of
                None \<Rightarrow> False
              | Some diff \<Rightarrow>
                  (case round_double (\<bar>diff\<bar> / railed_sample_resolution s ! d) of
                     None \<Rightarrow> False
                   | Some quot \<Rightarrow> \<lceil>quot\<rceil> \<le> INT_MAX)))
        [0..<railed_numJoints s])"

text \<open>
  The grid as the specification words it: \<open>ceil(|high - low| / r)\<close> values, the first
  one \<open>low\<close>, the last one \<open>high\<close>, non-decreasing.
\<close>

definition grid_as_specified :: "real \<Rightarrow> real \<Rightarrow> real \<Rightarrow> real list \<Rightarrow> bool" where
  "grid_as_specified low high r g =
     (int (length g) = \<lceil>\<bar>high - low\<bar> / r\<rceil> \<and> g \<noteq> [] \<and> hd g = low \<and> last g = high \<and>
      sorted g)"

text \<open>Numbers of logged calls, and the poses handed to inverse kinematics.\<close>

definition fwd_kin_calls :: "'p search \<Rightarrow> nat" where
  "fwd_kin_calls st = length (filter is_FwdKin (calls st))"

definition distance_calls :: "'p search \<Rightarrow> nat" where
  "distance_calls st = length (filter is_Distance (calls st))"

fun inv_kin_poses :: "'p call list \<Rightarrow> 'p list" where
  "inv_kin_poses [] = []"
| "inv_kin_poses (InvKin q # cs) = q # inv_kin_poses cs"
| "inv_kin_poses (c # cs) = inv_kin_poses cs"

text \<open>
  A best-only run that accepted nothing and asked for no distance: solution set and
  tracker as before, the same number of distance queries.
\<close>

definition quiet :: "'p search \<Rightarrow> 'p search \<Rightarrow> bool" where
  "quiet b b' =
     (solution_set b' = solution_set b \<and> distance b' = distance b \<and>
      distance_calls b' = distance_calls b)"

text \<open>
  The full joint solution of branch \<open>i\<close> at a rail point, as lines 156-158 assemble it,
  and what the collect-all pass requires of an entry it keeps.
\<close>

definition full_sol :: "'p sampler \<Rightarrow> real list \<Rightarrow> real list \<Rightarrow> nat \<Rightarrow> real list" where
  "full_sol s rp rss i = rp @ take (robot_numJoints s) (drop (robot_numJoints s * i) rss)"

definition feasible :: "'p sampler \<Rightarrow> real list \<Rightarrow> bool" where
  "feasible s sol = (length sol = dof s \<and> is_valid s sol \<and> isCollisionFree s sol)"

text \<open>What a collect-all run has added to the solution set it started from.\<close>

definition kept_from :: "'p sampler \<Rightarrow> real list \<Rightarrow> real list \<Rightarrow> bool" where
  "kept_from s ss0 ss =
     (\<exists>sols. ss = ss0 @ concat sols \<and> list_all (feasible s) sols)"

section \<open>A robot on a straight rail\<close>

text \<open>
  Concrete samplers for the examples: poses are positions on a line (inverse is negation,
  product is addition, the translation norm is the absolute value), the rail tip is at the
  sum of the rail joints, the robot has one joint, and the tool-pose candidates are the
  nominal pose shifted by the given offsets.
\<close>

definition line_sampler ::
  "(real \<times> real) list \<Rightarrow> real list \<Rightarrow> (real \<Rightarrow> real list \<Rightarrow> real list option)
     \<Rightarrow> collision_interface option \<Rightarrow> bool \<Rightarrow> real list \<Rightarrow> real sampler" where
  "line_sampler limits resolution ik coll allow offsets =
     \<lparr>tool_pose = 0,
      tool_pose_sampler = (\<lambda>p. map (\<lambda>off. p + off) offsets),
      railed_calcFwdKin = (\<lambda>q. Some (sum_list q)),
      railed_numJoints = length limits,
      railed_limits = limits,
      robot_calcInvKin = ik,
      robot_numJoints = 1,
      collision = coll,
      world_to_railed_base = 0,
      railed_sample_resolution = resolution,
      robot_tcp = 0,
      robot_reach = 10,
      allow_collision = allow,
      is_valid = (\<lambda>v. True),
      iso_inverse = uminus,
      iso_mul = (+),
      iso_translation_norm = abs\<rparr>"

text \<open>Inverse kinematics with one branch everywhere but at the origin, and with none.\<close>

definition ik_off_origin :: "real \<Rightarrow> real list \<Rightarrow> real list option" where
  "ik_off_origin p seed = (if p = 0 then None else Some [p])"

definition ik_never :: "real \<Rightarrow> real list \<Rightarrow> real list option" where
  "ik_never p seed = None"

text \<open>
  Collision capabilities that reject every vertex: one penetrating everywhere (clearance
  \<open>-0.1\<close> at rail 0.5 and \<open>-0.05\<close> elsewhere), one with clearance 1 at rail 0.5 and 2
  elsewhere.
\<close>

definition penetrating :: collision_interface where
  "penetrating =
     \<lparr>coll_validate = (\<lambda>v n. False),
      coll_distance = (\<lambda>v n. if hd v = 1 / 2 then - (1 / 10) else - (1 / 20))\<rparr>"

definition too_close :: collision_interface where
  "too_close =
     \<lparr>coll_validate = (\<lambda>v n. False),
      coll_distance = (\<lambda>v n. if hd v = 1 / 2 then 1 else 2)\<rparr>"

definition penetrating_sampler :: "real sampler" where
  "penetrating_sampler = line_sampler [(0, 1)] [2 / 5] ik_off_origin (Some penetrating) True [0]"

definition too_close_sampler :: "real sampler" where
  "too_close_sampler = line_sampler [(0, 1)] [2 / 5] ik_off_origin (Some too_close) True [0]"

definition coarse_sampler :: "real sampler" where
  "coarse_sampler = line_sampler [(0, 1)] [1] ik_off_origin None False [0]"

definition point_sampler :: "real sampler" where
  "point_sampler = line_sampler [(0, 0)] [1] ik_off_origin None False [0]"

text \<open>
  Bounds \<open>[0.1, 0.4]\<close> with resolution \<open>0.1\<close>, each the double nearest to the decimal:
  0.1 is \<open>3602879701896397 / 2\<^sup>5\<^sup>5\<close> and 0.4 is four times that.
\<close>

definition tenth_sampler :: "real sampler" where
  "tenth_sampler =
     line_sampler [(3602879701896397 / 2 ^ 55, 3602879701896397 / 2 ^ 53)]
       [3602879701896397 / 2 ^ 55] ik_off_origin None False [0]"

definition inverted_sampler :: "real sampler" where
  "inverted_sampler = line_sampler [(1, 0)] [2 / 5] ik_off_origin None False [0]"


definition no_collision_sampler :: "real sampler" where
  "no_collision_sampler = line_sampler [(0, 1)] [2 / 5] ik_never None True [0]"

definition two_rail_sampler :: "real sampler" where
  "two_rail_sampler =
     line_sampler [(0, 1), (0, 1)] [2 / 5, 3 / 10] ik_off_origin None False [0, 1]"

text \<open>
  A collision capability that accepts a vertex only at rail 1, and a tool pose of which rail 0
  is out of the robot's reach of 10, rail 0.5 exactly at it.
\<close>

definition picky :: collision_interface where
  "picky = \<lparr>coll_validate = (\<lambda>v n. hd v = 1), coll_distance = (\<lambda>v n. 0)\<rparr>"

definition picky_sampler :: "real sampler" where
  "picky_sampler = line_sampler [(0, 1)] [2 / 5] ik_off_origin (Some picky) False [0]"

definition far_sampler :: "real sampler" where
  "far_sampler = line_sampler [(0, 1)] [2 / 5] ik_off_origin None False [21 / 2]"

section \<open>Iteration with faults\<close>

declare nested_ik.simps [simp del]

lemma for_each_inv:
  assumes "for_each body xs st = Inr st'" and "I st"
    and "\<And>x a a'. x \<in> set xs \<Longrightarrow> I a \<Longrightarrow> body x a = Inr a' \<Longrightarrow> I a'"
  shows "I st'"
  using assms
proof (induction xs arbitrary: st)
  case Nil
  then show ?case by simp
next
  case (Cons x xs)
  from Cons.prems(1) obtain a where a: "body x st = Inr a" and rest: "for_each body xs a = Inr st'"
    by (auto split: sum.splits)
  have "I a" using Cons.prems(3)[of x st a] Cons.prems(2) a by simp
  then show ?case
    by (rule Cons.IH[OF rest]) (use Cons.prems(3) in auto)
qed

lemma for_each_total:
  assumes "I st"
    and "\<And>x a. x \<in> set xs \<Longrightarrow> I a \<Longrightarrow> \<exists>a'. body x a = Inr a' \<and> I a'"
  shows "\<exists>st'. for_each body xs st = Inr st' \<and> I st'"
  using assms
proof (induction xs arbitrary: st)
  case Nil
  then show ?case by simp
next
  case (Cons x xs)
  from Cons.prems obtain a where a: "body x st = Inr a" "I a"
    by (meson list.set_intros(1))
  have "\<exists>st'. for_each body xs a = Inr st' \<and> I st'"
    by (rule Cons.IH[OF a(2)]) (use Cons.prems(2) in auto)
  then show ?case using a by simp
qed

lemma for_each_count:
  fixes m :: "'st \<Rightarrow> nat"
  assumes "for_each body xs st = Inr st'"
    and "\<And>x a a'. x \<in> set xs \<Longrightarrow> body x a = Inr a' \<Longrightarrow> m a' = m a + k"
  shows "m st' = m st + k * length xs"
  using assms
proof (induction xs arbitrary: st)
  case Nil
  then show ?case by simp
next
  case (Cons x xs)
  from Cons.prems(1) obtain a where a: "body x st = Inr a" and rest: "for_each body xs a = Inr st'"
    by (auto split: sum.splits)
  have "m a = m st + k" using Cons.prems(2)[of x st a] a by simp
  moreover have "m st' = m a + k * length xs"
    by (rule Cons.IH[OF rest]) (use Cons.prems(2) in auto)
  ultimately show ?case by simp
qed

lemma nested_ik_leaf:
  "railed_numJoints s \<le> l \<Longrightarrow>
   nested_ik s l dr p sp gb st =
     (case ikAt s p sp gb st of Inl e \<Rightarrow> Inl e | Inr r \<Rightarrow> Inr (snd r))"
  by (subst nested_ik.simps) simp

lemma nested_ik_node:
  "l < railed_numJoints s \<Longrightarrow> l < length dr \<Longrightarrow>
   nested_ik s l dr p sp gb st =
     for_each (\<lambda>v st'. nested_ik s (l + 1) dr p (sp[l := v]) gb st') (dr ! l) st"
  by (subst nested_ik.simps) simp

lemma nested_ik_short:
  "l < railed_numJoints s \<Longrightarrow> length dr \<le> l \<Longrightarrow>
   nested_ik s l dr p sp gb st = Inl IndexOutOfRange"
  by (subst nested_ik.simps) simp

lemma nested_ik_inv:
  assumes "nested_ik s l dr p sp gb st = Inr st'" and "I st" and "length sp = m"
    and leaf: "\<And>rp a ok a'. length rp = m \<Longrightarrow> I a \<Longrightarrow> ikAt s p rp gb a = Inr (ok, a') \<Longrightarrow> I a'"
  shows "I st'"
  using assms(1-3)
proof (induction "railed_numJoints s - l" arbitrary: l sp st st')
  case 0
  then have "railed_numJoints s \<le> l" by simp
  then have "(case ikAt s p sp gb st of Inl e \<Rightarrow> Inl e | Inr r \<Rightarrow> Inr (snd r)) = Inr st'"
    using "0.prems"(1) by (simp only: nested_ik_leaf)
  then have run: "ikAt s p sp gb st = Inr (fst (projr (ikAt s p sp gb st)), st')"
    by (cases "ikAt s p sp gb st") (simp_all add: prod_eq_iff)
  show ?case by (rule leaf[OF "0.prems"(3) "0.prems"(2) run])
next
  case (Suc k)
  then have l: "l < railed_numJoints s" by simp
  show ?case
  proof (cases "l < length dr")
    case False
    then have "nested_ik s l dr p sp gb st = Inl IndexOutOfRange"
      using l by (simp only: nested_ik_short not_less)
    then show ?thesis using Suc.prems(1) by simp
  next
    case True
    have run: "for_each (\<lambda>v st'. nested_ik s (l + 1) dr p (sp[l := v]) gb st') (dr ! l) st = Inr st'"
      using Suc.prems(1) nested_ik_node[OF l True] by simp
    show ?thesis
    proof (rule for_each_inv[where I = I, OF run Suc.prems(2)])
      fix v a a'
      assume a: "I a" and sub: "nested_ik s (l + 1) dr p (sp[l := v]) gb a = Inr a'"
      have k: "k = railed_numJoints s - (l + 1)" using Suc.hyps(2) by simp
      have len: "length (sp[l := v]) = m" using Suc.prems(3) by simp
      show "I a'" by (rule Suc.hyps(1)[OF k sub a len])
    qed
  qed
qed

lemma tool_poses_loop_inv:
  assumes "tool_poses_loop s poses dr gb st = Inr st'" and "I st"
    and leaf: "\<And>p rp a ok a'. length rp = railed_numJoints s \<Longrightarrow> I a \<Longrightarrow>
                 ikAt s p rp gb a = Inr (ok, a') \<Longrightarrow> I a'"
  shows "I st'"
proof (rule for_each_inv[where I = I, OF assms(1)[unfolded tool_poses_loop_def] assms(2)])
  fix tp a a'
  assume a: "I a"
    and run: "nested_ik s 0 dr (rail_frame s tp) (replicate (railed_numJoints s) 0) gb a = Inr a'"
  show "I a'"
  proof (rule nested_ik_inv[where I = I, OF run a])
    show "length (replicate (railed_numJoints s) (0::real)) = railed_numJoints s" by simp
  next
    fix rp b ok b'
    assume "length rp = railed_numJoints s" "I b" "ikAt s (rail_frame s tp) rp gb b = Inr (ok, b')"
    then show "I b'" by (rule leaf)
  qed
qed

section \<open>One rail point\<close>

lemma branch_length:
  assumes "0 < k" and "i < length rss div k"
  shows "length (take k (drop (k * i) rss)) = k"
proof -
  have "Suc i \<le> length rss div k" using assms(2) by simp
  then have "Suc i * k \<le> (length rss div k) * k" by (rule mult_le_mono1)
  also have "\<dots> \<le> length rss" by simp
  finally have "k * i + k \<le> length rss" by (simp add: mult.commute)
  then show ?thesis by simp
qed

lemma ikAt_cases:
  assumes "ikAt s p rp gb st = Inr (ok, st')"
  obtains (skipped) "st' = st\<lparr>calls := calls st @ [FwdKin rp]\<rparr>" "\<not> ok"
        | (no_ik) tf where "railed_calcFwdKin s rp = Some tf"
            "\<not> iso_translation_norm s (iso_mul s (iso_inverse s tf) p) > robot_reach s"
            "st' = st\<lparr>calls := calls st @ [FwdKin rp, InvKin (iso_mul s (iso_inverse s tf) p)]\<rparr>"
            "\<not> ok"
        | (branches) tf rss where "railed_calcFwdKin s rp = Some tf"
            "\<not> iso_translation_norm s (iso_mul s (iso_inverse s tf) p) > robot_reach s"
            "robot_calcInvKin s (iso_mul s (iso_inverse s tf) p) (ik_seed s) = Some rss"
            "0 < robot_numJoints s"
            "for_each (ikAt_branch s rp rss gb) [0..<length rss div robot_numJoints s]
               (st\<lparr>calls := calls st @ [FwdKin rp, InvKin (iso_mul s (iso_inverse s tf) p)]\<rparr>)
             = Inr st'"
            "ok = (solution_set st' \<noteq> [])"
  using assms
  by (simp add: ikAt_def Let_def split: option.splits if_splits sum.splits)

lemma ikAt_branch_False:
  "ikAt_branch s rp rss False i st =
     Inr (if is_valid s (full_sol s rp rss i) \<and> isCollisionFree s (full_sol s rp rss i)
          then st\<lparr>solution_set := solution_set st @ full_sol s rp rss i\<rparr>
          else st)"
  by (simp add: ikAt_branch_def Let_def full_sol_def)

lemma ikAt_branch_True_None:
  "collision s = None \<Longrightarrow>
   ikAt_branch s rp rss True i st =
     (if is_valid s (full_sol s rp rss i) then Inl NullCollision else Inr st)"
  by (simp add: ikAt_branch_def Let_def full_sol_def)

lemma ikAt_branch_True_Some:
  "collision s = Some c \<Longrightarrow>
   ikAt_branch s rp rss True i st =
     Inr (if \<not> is_valid s (full_sol s rp rss i) then st
          else if distance st < coll_distance c (full_sol s rp rss i) (length (full_sol s rp rss i))
          then st\<lparr>calls := calls st @ [Distance (full_sol s rp rss i)],
                  distance := coll_distance c (full_sol s rp rss i) (length (full_sol s rp rss i)),
                  solution_set := full_sol s rp rss i @ solution_set st\<rparr>
          else st\<lparr>calls := calls st @ [Distance (full_sol s rp rss i)]\<rparr>)"
  by (simp add: ikAt_branch_def Let_def full_sol_def)


lemma inv_kin_poses_append:
  "inv_kin_poses (xs @ ys) = inv_kin_poses xs @ inv_kin_poses ys"
  by (induction xs rule: inv_kin_poses.induct) simp_all

lemma ikAt_branch_calls:
  assumes "ikAt_branch s rp rss gb i st = Inr st'"
  shows "inv_kin_poses (calls st') = inv_kin_poses (calls st) \<and>
         fwd_kin_calls st' = fwd_kin_calls st"
proof (cases gb)
  case False
  then have "st' = (if is_valid s (full_sol s rp rss i) \<and> isCollisionFree s (full_sol s rp rss i)
          then st\<lparr>solution_set := solution_set st @ full_sol s rp rss i\<rparr>
          else st)"
    using assms by (simp add: ikAt_branch_False)
  then show ?thesis by (simp add: fwd_kin_calls_def)
next
  case True
  show ?thesis
  proof (cases "collision s")
    case None
    then have "st' = st"
      using assms True by (cases "is_valid s (full_sol s rp rss i)") (simp_all add: ikAt_branch_True_None)
    then show ?thesis by simp
  next
    case (Some c)
    have "st' = (if \<not> is_valid s (full_sol s rp rss i) then st
          else if distance st < coll_distance c (full_sol s rp rss i) (length (full_sol s rp rss i))
          then st\<lparr>calls := calls st @ [Distance (full_sol s rp rss i)],
                  distance := coll_distance c (full_sol s rp rss i) (length (full_sol s rp rss i)),
                  solution_set := full_sol s rp rss i @ solution_set st\<rparr>
          else st\<lparr>calls := calls st @ [Distance (full_sol s rp rss i)]\<rparr>)"
      using assms True by (simp add: ikAt_branch_True_Some[OF Some])
    then show ?thesis by (simp add: fwd_kin_calls_def inv_kin_poses_append)
  qed
qed

lemma ikAt_branches_calls:
  assumes "for_each (ikAt_branch s rp rss gb) is st = Inr st'"
  shows "inv_kin_poses (calls st') = inv_kin_poses (calls st) \<and>
         fwd_kin_calls st' = fwd_kin_calls st"
proof (rule for_each_inv[where I = "\<lambda>a. inv_kin_poses (calls a) = inv_kin_poses (calls st) \<and>
         fwd_kin_calls a = fwd_kin_calls st", OF assms])
  show "inv_kin_poses (calls st) = inv_kin_poses (calls st) \<and> fwd_kin_calls st = fwd_kin_calls st"
    by simp
next
  fix x a a'
  assume "inv_kin_poses (calls a) = inv_kin_poses (calls st) \<and> fwd_kin_calls a = fwd_kin_calls st"
    and "ikAt_branch s rp rss gb x a = Inr a'"
  then show "inv_kin_poses (calls a') = inv_kin_poses (calls st) \<and> fwd_kin_calls a' = fwd_kin_calls st"
    using ikAt_branch_calls[of s rp rss gb x a a'] by simp
qed

lemma ikAt_fwd_kin_calls:
  assumes "ikAt s p rp gb st = Inr (ok, st')"
  shows "fwd_kin_calls st' = fwd_kin_calls st + 1"
  using assms
proof (cases rule: ikAt_cases)
  case skipped
  then show ?thesis by (simp add: fwd_kin_calls_def)
next
  case (no_ik tf)
  then show ?thesis by (simp add: fwd_kin_calls_def)
next
  case (branches tf rss)
  from ikAt_branches_calls[OF branches(5)] show ?thesis by (simp add: fwd_kin_calls_def)
qed

lemma ikAt_within_reach:
  assumes "ikAt s p rp gb st = Inr (ok, st')"
    and "list_all (\<lambda>q. iso_translation_norm s q \<le> robot_reach s) (inv_kin_poses (calls st))"
  shows "list_all (\<lambda>q. iso_translation_norm s q \<le> robot_reach s) (inv_kin_poses (calls st'))"
  using assms(1)
proof (cases rule: ikAt_cases)
  case skipped
  then show ?thesis using assms(2) by (simp add: inv_kin_poses_append)
next
  case (no_ik tf)
  then show ?thesis using assms(2) by (simp add: inv_kin_poses_append)
next
  case (branches tf rss)
  from ikAt_branches_calls[OF branches(5)] branches(2) assms(2)
  show ?thesis by (simp add: inv_kin_poses_append)
qed

section \<open>Properties of the rail grid\<close>

lemma LinSpaced_length: "length (LinSpaced n low high) = n"
  by (simp add: LinSpaced_def)

lemma LinSpaced_nth:
  assumes "2 \<le> n" and "i < n"
  shows "LinSpaced n low high ! i = low + real i * ((high - low) / real (n - 1))"
  using assms by (simp add: LinSpaced_def)

lemma LinSpaced_hd:
  assumes "2 \<le> n"
  shows "hd (LinSpaced n low high) = low"
proof -
  have "LinSpaced n low high \<noteq> []" using assms LinSpaced_length[of n low high] by auto
  then have "hd (LinSpaced n low high) = LinSpaced n low high ! 0" by (rule hd_conv_nth)
  then show ?thesis using assms by (simp add: LinSpaced_nth)
qed

lemma LinSpaced_last:
  assumes "2 \<le> n"
  shows "last (LinSpaced n low high) = high"
proof -
  have "LinSpaced n low high \<noteq> []" using assms LinSpaced_length[of n low high] by auto
  then have "last (LinSpaced n low high) = LinSpaced n low high ! (n - 1)"
    by (simp add: last_conv_nth LinSpaced_length)
  also have "\<dots> = low + real (n - 1) * ((high - low) / real (n - 1))"
    using assms by (simp add: LinSpaced_nth)
  also have "\<dots> = high" using assms by simp
  finally show ?thesis .
qed

lemma LinSpaced_sorted:
  assumes "low \<le> high"
  shows "sorted (LinSpaced n low high)"
proof (cases "n = 1")
  case True
  then show ?thesis by (simp add: LinSpaced_def)
next
  case False
  define step where "step = (high - low) / real (n - 1)"
  have step: "0 \<le> step" using assms by (simp add: step_def)
  have "low + real i * step \<le> low + real j * step" if "i \<le> j" for i j
  proof -
    have "real i \<le> real j" using that by simp
    then have "real i * step \<le> real j * step" using step by (rule mult_right_mono)
    then show ?thesis by simp
  qed
  then have "sorted (map (\<lambda>i. low + real i * step) [0..<n])"
    by (simp add: sorted_iff_nth_mono)
  moreover have "LinSpaced n low high = map (\<lambda>i. low + real i * step) [0..<n]"
    using False by (simp add: LinSpaced_def step_def)
  ultimately show ?thesis by simp
qed

lemma round_half_even_nonneg: "0 \<le> y \<Longrightarrow> 0 \<le> round_half_even y"
proof -
  assume "0 \<le> y"
  then have "0 \<le> \<lfloor>y\<rfloor>" by simp
  then show ?thesis by (simp add: round_half_even_def Let_def)
qed

lemma round_double_nonneg:
  assumes "round_double x = Some y" and "0 \<le> x"
  shows "0 \<le> y"
proof -
  define e where "e = max (binade x) (- 1022)"
  define q :: real where "q = (if 52 \<le> e then 2 ^ nat (e - 52) else 1 / 2 ^ nat (52 - e))"
  have q: "0 < q" by (simp add: q_def)
  have "y = of_int (round_half_even (x / q)) * q"
    using assms(1) unfolding round_double_def Let_def e_def[symmetric] q_def[symmetric]
    by (simp split: if_splits)
  moreover have "0 \<le> round_half_even (x / q)"
    using assms(2) q by (intro round_half_even_nonneg) simp
  ultimately show ?thesis using q by simp
qed

lemma dof_grid_built:
  assumes "d < length (railed_limits s)" and "d < length (railed_sample_resolution s)"
    and "0 < railed_sample_resolution s ! d"
    and "round_double (snd (railed_limits s ! d) - fst (railed_limits s ! d)) = Some diff"
    and "round_double (\<bar>diff\<bar> / railed_sample_resolution s ! d) = Some quot"
    and "\<lceil>quot\<rceil> \<le> INT_MAX"
  shows "dof_grid s d =
           Inr (LinSpaced (nat \<lceil>quot\<rceil>) (fst (railed_limits s ! d)) (snd (railed_limits s ! d)))"
    and "0 \<le> \<lceil>quot\<rceil>"
proof -
  have "0 \<le> \<bar>diff\<bar> / railed_sample_resolution s ! d" using assms(3) by simp
  then have "0 \<le> quot" by (rule round_double_nonneg[OF assms(5)])
  then show nonneg: "0 \<le> \<lceil>quot\<rceil>" by (simp add: ceiling_mono[of 0, simplified])
  have "0 \<le> INT_MAX" by (simp add: INT_MAX_def)
  then have range: "\<not> (\<lceil>quot\<rceil> < - INT_MAX - 1 \<or> INT_MAX < \<lceil>quot\<rceil>)"
    using nonneg assms(6) by linarith
  have idx: "\<not> (length (railed_limits s) \<le> d \<or> length (railed_sample_resolution s) \<le> d)"
    using assms(1,2) by simp
  have res: "railed_sample_resolution s ! d \<noteq> 0" using assms(3) by simp
  have "dof_cnt s d = Inr \<lceil>quot\<rceil>"
    unfolding dof_cnt_def Let_def
    by (simp only: idx res range if_False assms(4,5) option.case)
  then show "dof_grid s d =
           Inr (LinSpaced (nat \<lceil>quot\<rceil>) (fst (railed_limits s ! d)) (snd (railed_limits s ! d)))"
    using nonneg by (simp add: dof_grid_def)
qed

lemma dof_ranges_length:
  "dof_ranges s ds = Inr dr \<Longrightarrow> length dr = length ds"
  by (induction ds arbitrary: dr) (auto split: sum.splits)

lemma build_dof_range_length:
  "build_dof_range s = Inr dr \<Longrightarrow> length dr = railed_numJoints s"
  by (simp add: build_dof_range_def dof_ranges_length)

lemma dof_ranges_nth:
  "dof_ranges s ds = Inr dr \<Longrightarrow> i < length ds \<Longrightarrow> dof_grid s (ds ! i) = Inr (dr ! i)"
proof (induction ds arbitrary: dr i)
  case Nil
  then show ?case by simp
next
  case (Cons d ds)
  then show ?case by (cases i) (auto split: sum.splits)
qed

lemma build_dof_range_nth:
  "build_dof_range s = Inr dr \<Longrightarrow> d < railed_numJoints s \<Longrightarrow> dof_grid s d = Inr (dr ! d)"
  using dof_ranges_nth[of s "[0..<railed_numJoints s]" dr d] by (simp add: build_dof_range_def)

lemma dof_ranges_total:
  assumes "\<And>d. d \<in> set ds \<Longrightarrow> \<exists>g. dof_grid s d = Inr g"
  shows "\<exists>dr. dof_ranges s ds = Inr dr"
  using assms
proof (induction ds)
  case Nil
  then show ?case by simp
next
  case (Cons d ds)
  then obtain g dr where "dof_grid s d = Inr g" "dof_ranges s ds = Inr dr"
    by (meson list.set_intros)
  then show ?case by simp
qed

lemma well_formed_count:
  assumes "well_formed s" and "d < railed_numJoints s"
  obtains diff quot where
    "round_double (snd (railed_limits s ! d) - fst (railed_limits s ! d)) = Some diff"
    "round_double (\<bar>diff\<bar> / railed_sample_resolution s ! d) = Some quot"
    "\<lceil>quot\<rceil> \<le> INT_MAX"
proof -
  have "case round_double (snd (railed_limits s ! d) - fst (railed_limits s ! d)) of
          None \<Rightarrow> False
        | Some diff \<Rightarrow>
            (case round_double (\<bar>diff\<bar> / railed_sample_resolution s ! d) of
               None \<Rightarrow> False
             | Some quot \<Rightarrow> \<lceil>quot\<rceil> \<le> INT_MAX)"
    using assms by (simp add: well_formed_def list_all_iff)
  then show ?thesis using that by (auto split: option.splits)
qed

lemma well_formed_build:
  assumes "well_formed s"
  shows "\<exists>dr. build_dof_range s = Inr dr"
  unfolding build_dof_range_def
proof (rule dof_ranges_total)
  fix d
  assume "d \<in> set [0..<railed_numJoints s]"
  then have d: "d < railed_numJoints s" by simp
  from well_formed_count[OF assms d] obtain diff quot where count:
    "round_double (snd (railed_limits s ! d) - fst (railed_limits s ! d)) = Some diff"
    "round_double (\<bar>diff\<bar> / railed_sample_resolution s ! d) = Some quot"
    "\<lceil>quot\<rceil> \<le> INT_MAX"
    by blast
  have "dof_grid s d =
           Inr (LinSpaced (nat \<lceil>quot\<rceil>) (fst (railed_limits s ! d)) (snd (railed_limits s ! d)))"
    using assms d by (intro dof_grid_built(1)[OF _ _ _ count]) (simp_all add: well_formed_def list_all_iff)
  then show "\<exists>g. dof_grid s d = Inr g" by (rule exI)
qed

section \<open>Invariants of one rail point\<close>

lemma full_sol_length:
  assumes "0 < robot_numJoints s" and "i < length rss div robot_numJoints s"
    and "length rp = railed_numJoints s"
  shows "length (full_sol s rp rss i) = dof s"
  using branch_length[OF assms(1,2)] assms(3) by (simp add: full_sol_def dof_def)

lemma ikAt_branch_solution_set:
  assumes "ikAt_branch s rp rss gb i st = Inr st'"
  shows "solution_set st' = solution_set st \<or>
         (\<not> gb \<and> is_valid s (full_sol s rp rss i) \<and> isCollisionFree s (full_sol s rp rss i) \<and>
          solution_set st' = solution_set st @ full_sol s rp rss i) \<or>
         (gb \<and> solution_set st' = full_sol s rp rss i @ solution_set st)"
proof (cases gb)
  case False
  then have "st' = (if is_valid s (full_sol s rp rss i) \<and> isCollisionFree s (full_sol s rp rss i)
          then st\<lparr>solution_set := solution_set st @ full_sol s rp rss i\<rparr>
          else st)"
    using assms by (simp add: ikAt_branch_False)
  then show ?thesis using False by simp
next
  case True
  show ?thesis
  proof (cases "collision s")
    case None
    then have "st' = st"
      using assms True by (cases "is_valid s (full_sol s rp rss i)") (simp_all add: ikAt_branch_True_None)
    then show ?thesis by simp
  next
    case (Some c)
    have "st' = (if \<not> is_valid s (full_sol s rp rss i) then st
          else if distance st < coll_distance c (full_sol s rp rss i) (length (full_sol s rp rss i))
          then st\<lparr>calls := calls st @ [Distance (full_sol s rp rss i)],
                  distance := coll_distance c (full_sol s rp rss i) (length (full_sol s rp rss i)),
                  solution_set := full_sol s rp rss i @ solution_set st\<rparr>
          else st\<lparr>calls := calls st @ [Distance (full_sol s rp rss i)]\<rparr>)"
      using assms True by (simp add: ikAt_branch_True_Some[OF Some])
    then show ?thesis using True by simp
  qed
qed

lemma ikAt_branch_dvd:
  assumes "ikAt_branch s rp rss gb i st = Inr st'"
    and "length (full_sol s rp rss i) = dof s"
    and "dof s dvd length (solution_set st)"
  shows "dof s dvd length (solution_set st')"
  using ikAt_branch_solution_set[OF assms(1)] assms(2,3) by auto

lemma ikAt_dvd:
  assumes "ikAt s p rp gb st = Inr (ok, st')"
    and "length rp = railed_numJoints s"
    and "dof s dvd length (solution_set st)"
  shows "dof s dvd length (solution_set st')"
  using assms(1)
proof (cases rule: ikAt_cases)
  case skipped
  then show ?thesis using assms(3) by simp
next
  case (no_ik tf)
  then show ?thesis using assms(3) by simp
next
  case (branches tf rss)
  show ?thesis
  proof (rule for_each_inv[where I = "\<lambda>a. dof s dvd length (solution_set a)", OF branches(5)])
    show "dof s dvd length (solution_set (st\<lparr>calls := calls st @
             [FwdKin rp, InvKin (iso_mul s (iso_inverse s tf) p)]\<rparr>))"
      using assms(3) by simp
  next
    fix i a a'
    assume i: "i \<in> set [0..<length rss div robot_numJoints s]"
      and a: "dof s dvd length (solution_set a)"
      and run: "ikAt_branch s rp rss gb i a = Inr a'"
    have "length (full_sol s rp rss i) = dof s"
      using i by (intro full_sol_length[OF branches(4) _ assms(2)]) simp
    then show "dof s dvd length (solution_set a')"
      using ikAt_branch_dvd[OF run] a by simp
  qed
qed

lemma kept_from_refl: "kept_from s ss0 ss0"
  unfolding kept_from_def by (rule exI[of _ "[]"]) simp

lemma kept_from_snoc:
  assumes "kept_from s ss0 ss" and "feasible s sol"
  shows "kept_from s ss0 (ss @ sol)"
proof -
  from assms(1) obtain sols where "ss = ss0 @ concat sols" "list_all (feasible s) sols"
    unfolding kept_from_def by blast
  then have "ss @ sol = ss0 @ concat (sols @ [sol]) \<and> list_all (feasible s) (sols @ [sol])"
    using assms(2) by simp
  then show ?thesis unfolding kept_from_def by blast
qed

lemma ikAt_kept:
  assumes "ikAt s p rp False st = Inr (ok, st')"
    and "length rp = railed_numJoints s"
    and "kept_from s ss0 (solution_set st)"
  shows "kept_from s ss0 (solution_set st')"
  using assms(1)
proof (cases rule: ikAt_cases)
  case skipped
  then show ?thesis using assms(3) by simp
next
  case (no_ik tf)
  then show ?thesis using assms(3) by simp
next
  case (branches tf rss)
  show ?thesis
  proof (rule for_each_inv[where I = "\<lambda>a. kept_from s ss0 (solution_set a)", OF branches(5)])
    show "kept_from s ss0 (solution_set (st\<lparr>calls := calls st @
             [FwdKin rp, InvKin (iso_mul s (iso_inverse s tf) p)]\<rparr>))"
      using assms(3) by simp
  next
    fix i a a'
    assume i: "i \<in> set [0..<length rss div robot_numJoints s]"
      and a: "kept_from s ss0 (solution_set a)"
      and run: "ikAt_branch s rp rss False i a = Inr a'"
    have len: "length (full_sol s rp rss i) = dof s"
      using i by (intro full_sol_length[OF branches(4) _ assms(2)]) simp
    from ikAt_branch_solution_set[OF run]
    consider "solution_set a' = solution_set a"
      | "feasible s (full_sol s rp rss i)" "solution_set a' = solution_set a @ full_sol s rp rss i"
      using len by (auto simp: feasible_def)
    then show "kept_from s ss0 (solution_set a')"
    proof cases
      case 1
      then show ?thesis using a by simp
    next
      case 2
      then show ?thesis using kept_from_snoc[OF a] by simp
    qed
  qed
qed

section \<open>The enumeration\<close>

subsection \<open>Runs that return\<close>

lemma ikAt_branch_total:
  assumes "gb \<Longrightarrow> collision s \<noteq> None"
  shows "\<exists>st'. ikAt_branch s rp rss gb i st = Inr st'"
proof (cases gb)
  case False
  then show ?thesis by (simp add: ikAt_branch_False)
next
  case True
  with assms obtain c where "collision s = Some c" by auto
  then show ?thesis using True by (simp add: ikAt_branch_True_Some)
qed

lemma ikAt_total:
  assumes "0 < robot_numJoints s" and "gb \<Longrightarrow> collision s \<noteq> None"
  shows "\<exists>r. ikAt s p rp gb st = Inr r"
proof -
  have "\<exists>st'. for_each (ikAt_branch s rp rss gb) is a = Inr st' \<and> True" for rss "is" a
    by (rule for_each_total[where I = "\<lambda>_. True"]) (simp_all add: ikAt_branch_total[OF assms(2)])
  then have loop: "\<exists>st'. for_each (ikAt_branch s rp rss gb) is a = Inr st'" for rss "is" a
    by simp
  show ?thesis
  proof (cases "railed_calcFwdKin s rp")
    case None
    then have "ikAt s p rp gb st = Inr (False, st\<lparr>calls := calls st @ [FwdKin rp]\<rparr>)"
      by (simp add: ikAt_def)
    then show ?thesis by (rule exI)
  next
    case (Some tf)
    show ?thesis
    proof (cases "iso_translation_norm s (iso_mul s (iso_inverse s tf) p) > robot_reach s")
      case True
      then have "ikAt s p rp gb st = Inr (False, st\<lparr>calls := calls st @ [FwdKin rp]\<rparr>)"
        using Some by (simp add: ikAt_def)
      then show ?thesis by (rule exI)
    next
      case False
      show ?thesis
      proof (cases "robot_calcInvKin s (iso_mul s (iso_inverse s tf) p) (ik_seed s)")
        case None
        then have "ikAt s p rp gb st =
            Inr (False, st\<lparr>calls := calls st @ [FwdKin rp, InvKin (iso_mul s (iso_inverse s tf) p)]\<rparr>)"
          using Some False by (simp add: ikAt_def)
        then show ?thesis by (rule exI)
      next
        case (Some rss)
        obtain st' where "for_each (ikAt_branch s rp rss gb) [0..<length rss div robot_numJoints s]
            (st\<lparr>calls := calls st @ [FwdKin rp, InvKin (iso_mul s (iso_inverse s tf) p)]\<rparr>) = Inr st'"
          using loop by blast
        then have "ikAt s p rp gb st = Inr (solution_set st' \<noteq> [], st')"
          using Some \<open>railed_calcFwdKin s rp = Some tf\<close> False assms(1)
          by (simp add: ikAt_def)
        then show ?thesis by (rule exI)
      qed
    qed
  qed
qed

lemma nested_ik_total:
  assumes "0 < robot_numJoints s" and "gb \<Longrightarrow> collision s \<noteq> None"
    and "railed_numJoints s \<le> length dr"
  shows "\<exists>st'. nested_ik s l dr p sp gb st = Inr st'"
proof (induction "railed_numJoints s - l" arbitrary: l sp st)
  case 0
  then have l: "railed_numJoints s \<le> l" by simp
  obtain r where "ikAt s p sp gb st = Inr r" using ikAt_total[OF assms(1,2)] by blast
  then have "nested_ik s l dr p sp gb st = Inr (snd r)" by (simp add: nested_ik_leaf[OF l])
  then show ?case by (rule exI)
next
  case (Suc k)
  then have l: "l < railed_numJoints s" by simp
  then have l': "l < length dr" using assms(3) by simp
  have "\<exists>st'. for_each (\<lambda>v st'. nested_ik s (l + 1) dr p (sp[l := v]) gb st') (dr ! l) st = Inr st'
          \<and> True"
  proof (rule for_each_total[where I = "\<lambda>_. True"])
    fix v a
    have k: "k = railed_numJoints s - (l + 1)" using Suc.hyps(2) by simp
    from Suc.hyps(1)[OF k]
    show "\<exists>a'. nested_ik s (l + 1) dr p (sp[l := v]) gb a = Inr a' \<and> True" by simp
  qed simp
  then show ?case by (simp add: nested_ik_node[OF l l'])
qed

lemma tool_poses_loop_total:
  assumes "0 < robot_numJoints s" and "gb \<Longrightarrow> collision s \<noteq> None"
    and "railed_numJoints s \<le> length dr"
  shows "\<exists>st'. tool_poses_loop s poses dr gb st = Inr st'"
proof -
  have "\<exists>st'. tool_poses_loop s poses dr gb st = Inr st' \<and> True"
    unfolding tool_poses_loop_def
    by (rule for_each_total[where I = "\<lambda>_. True"]) (simp_all add: nested_ik_total[OF assms])
  then show ?thesis by simp
qed

subsection \<open>Counting forward-kinematics calls\<close>

lemma nested_ik_fwd_kin_calls:
  assumes "nested_ik s l dr p sp gb st = Inr st'"
    and "length dr = railed_numJoints s" and "l \<le> railed_numJoints s"
  shows "fwd_kin_calls st' = fwd_kin_calls st + prod_list (map length (drop l dr))"
  using assms(1,3)
proof (induction "railed_numJoints s - l" arbitrary: l sp st st')
  case 0
  then have l: "railed_numJoints s \<le> l" by simp
  then have "(case ikAt s p sp gb st of Inl e \<Rightarrow> Inl e | Inr r \<Rightarrow> Inr (snd r)) = Inr st'"
    using "0.prems"(1) by (simp only: nested_ik_leaf)
  then have "ikAt s p sp gb st = Inr (fst (projr (ikAt s p sp gb st)), st')"
    by (cases "ikAt s p sp gb st") (simp_all add: prod_eq_iff)
  from ikAt_fwd_kin_calls[OF this] show ?case using l assms(2) by simp
next
  case (Suc k)
  then have l: "l < railed_numJoints s" by simp
  then have l': "l < length dr" using assms(2) by simp
  have run: "for_each (\<lambda>v st'. nested_ik s (l + 1) dr p (sp[l := v]) gb st') (dr ! l) st = Inr st'"
    using Suc.prems(1) nested_ik_node[OF l l'] by simp
  have k: "k = railed_numJoints s - (l + 1)" using Suc.hyps(2) by simp
  have "fwd_kin_calls st' =
          fwd_kin_calls st + prod_list (map length (drop (l + 1) dr)) * length (dr ! l)"
  proof (rule for_each_count[OF run])
    fix v a a'
    assume "nested_ik s (l + 1) dr p (sp[l := v]) gb a = Inr a'"
    from Suc.hyps(1)[OF k this] l
    show "fwd_kin_calls a' = fwd_kin_calls a + prod_list (map length (drop (l + 1) dr))" by simp
  qed
  moreover have "drop l dr = dr ! l # drop (l + 1) dr"
    using l' by (simp add: Cons_nth_drop_Suc)
  ultimately show ?case by (simp add: mult.commute)
qed

lemma tool_poses_loop_fwd_kin_calls:
  assumes "tool_poses_loop s poses dr gb st = Inr st'"
    and "length dr = railed_numJoints s"
  shows "fwd_kin_calls st' = fwd_kin_calls st + prod_list (map length dr) * length poses"
proof (rule for_each_count[OF assms(1)[unfolded tool_poses_loop_def]])
  fix tp a a'
  assume "nested_ik s 0 dr (rail_frame s tp) (replicate (railed_numJoints s) 0) gb a = Inr a'"
  from nested_ik_fwd_kin_calls[OF this assms(2)]
  show "fwd_kin_calls a' = fwd_kin_calls a + prod_list (map length dr)" by simp
qed

subsection \<open>Best-only after an empty collect-all pass, without a collision capability\<close>

lemma quiet_refl: "quiet b b"
  by (simp add: quiet_def)

lemma quiet_trans: "quiet a b \<Longrightarrow> quiet b c \<Longrightarrow> quiet a c"
  by (simp add: quiet_def)

lemma quiet_log:
  "\<not> is_Distance c \<Longrightarrow> quiet b (b\<lparr>calls := calls b @ [c]\<rparr>)"
  by (simp add: quiet_def distance_calls_def)

lemma for_each_mono:
  fixes m :: "'st \<Rightarrow> nat"
  assumes "for_each f xs a = Inr a'"
    and "\<And>x b b'. x \<in> set xs \<Longrightarrow> f x b = Inr b' \<Longrightarrow> m b \<le> m b'"
  shows "m a \<le> m a'"
proof (rule for_each_inv[where I = "\<lambda>b. m a \<le> m b", OF assms(1)])
  show "m a \<le> m a" by simp
next
  fix x b b'
  assume "x \<in> set xs" "m a \<le> m b" "f x b = Inr b'"
  then show "m a \<le> m b'" using assms(2)[of x b b'] by simp
qed

lemma for_each_sim:
  fixes m :: "'a \<Rightarrow> nat"
  assumes run: "for_each f xs a = Inr a'" and same: "m a' = m a"
    and mono: "\<And>x c c'. x \<in> set xs \<Longrightarrow> f x c = Inr c' \<Longrightarrow> m c \<le> m c'"
    and step: "\<And>x c c' b. x \<in> set xs \<Longrightarrow> f x c = Inr c' \<Longrightarrow> m c' = m c \<Longrightarrow>
                 \<exists>b'. g x b = Inr b' \<and> quiet b b'"
  shows "\<exists>b'. for_each g xs b = Inr b' \<and> quiet b b'"
  using run same mono step
proof (induction xs arbitrary: a b)
  case Nil
  then show ?case by (simp add: quiet_refl)
next
  case (Cons x xs)
  from Cons.prems(1) obtain a1 where a1: "f x a = Inr a1" and rest: "for_each f xs a1 = Inr a'"
    by (auto split: sum.splits)
  have le1: "m a \<le> m a1" using Cons.prems(3)[of x a a1] a1 by simp
  have le2: "m a1 \<le> m a'"
    by (rule for_each_mono[OF rest]) (use Cons.prems(3) in auto)
  have eq1: "m a1 = m a" and eq2: "m a' = m a1" using le1 le2 Cons.prems(2) by simp_all
  from Cons.prems(4)[of x a a1 b] a1 eq1 obtain b1 where b1: "g x b = Inr b1" "quiet b b1"
    by auto
  have "\<exists>b'. for_each g xs b1 = Inr b' \<and> quiet b1 b'"
    by (rule Cons.IH[OF rest eq2]) (use Cons.prems(3,4) in auto)
  then obtain b' where "for_each g xs b1 = Inr b'" "quiet b1 b'" by blast
  then have "for_each g (x # xs) b = Inr b' \<and> quiet b b'"
    using b1 quiet_trans by (simp, blast)
  then show ?case by (rule exI)
qed

lemma ikAt_branch_mono:
  assumes "ikAt_branch s rp rss gb i st = Inr st'"
  shows "length (solution_set st) \<le> length (solution_set st')"
  using ikAt_branch_solution_set[OF assms] by auto

lemma ikAt_mono:
  assumes "ikAt s p rp gb st = Inr (ok, st')"
  shows "length (solution_set st) \<le> length (solution_set st')"
  using assms
proof (cases rule: ikAt_cases)
  case skipped
  then show ?thesis by simp
next
  case (no_ik tf)
  then show ?thesis by simp
next
  case (branches tf rss)
  have "length (solution_set (st\<lparr>calls := calls st @
             [FwdKin rp, InvKin (iso_mul s (iso_inverse s tf) p)]\<rparr>)) \<le> length (solution_set st')"
    by (rule for_each_mono[OF branches(5)]) (simp add: ikAt_branch_mono)
  then show ?thesis by simp
qed

lemma nested_ik_mono:
  assumes "nested_ik s l dr p sp gb st = Inr st'"
  shows "length (solution_set st) \<le> length (solution_set st')"
proof (rule nested_ik_inv[where I = "\<lambda>a. length (solution_set st) \<le> length (solution_set a)"
      and m = "length sp", OF assms])
  fix rp a ok a'
  assume "length (solution_set st) \<le> length (solution_set a)" "ikAt s p rp gb a = Inr (ok, a')"
  then show "length (solution_set st) \<le> length (solution_set a')"
    using ikAt_mono[of s p rp gb a ok a'] by simp
qed simp_all

lemma ikAt_branch_sim:
  assumes none: "collision s = None"
    and run: "ikAt_branch s rp rss False i a = Inr a'"
    and same: "length (solution_set a') = length (solution_set a)"
    and len: "full_sol s rp rss i \<noteq> []"
  shows "ikAt_branch s rp rss True i b = Inr b"
proof -
  have "isCollisionFree s (full_sol s rp rss i)" using none by (simp add: isCollisionFree_def)
  then have "\<not> is_valid s (full_sol s rp rss i)"
    using run same len by (auto simp: ikAt_branch_False split: if_splits)
  then show ?thesis using none by (simp add: ikAt_branch_True_None)
qed


lemma ikAt_sim:
  assumes none: "collision s = None"
    and run: "ikAt s p rp False a = Inr (ok, a')"
    and same: "length (solution_set a') = length (solution_set a)"
  shows "\<exists>r. ikAt s p rp True b = Inr r \<and> quiet b (snd r)"
proof (cases "railed_calcFwdKin s rp")
  case None
  then have "ikAt s p rp True b = Inr (False, b\<lparr>calls := calls b @ [FwdKin rp]\<rparr>)"
    by (simp add: ikAt_def)
  then show ?thesis by (simp add: quiet_def distance_calls_def)
next
  case (Some tf)
  note fk = Some
  show ?thesis
  proof (cases "iso_translation_norm s (iso_mul s (iso_inverse s tf) p) > robot_reach s")
    case True
    then have "ikAt s p rp True b = Inr (False, b\<lparr>calls := calls b @ [FwdKin rp]\<rparr>)"
      using fk by (simp add: ikAt_def)
    then show ?thesis by (simp add: quiet_def distance_calls_def)
  next
    case False
    note reach = False
    show ?thesis
    proof (cases "robot_calcInvKin s (iso_mul s (iso_inverse s tf) p) (ik_seed s)")
      case None
      then have "ikAt s p rp True b =
          Inr (False, b\<lparr>calls := calls b @ [FwdKin rp, InvKin (iso_mul s (iso_inverse s tf) p)]\<rparr>)"
        using fk reach by (simp add: ikAt_def)
      then show ?thesis by (simp add: quiet_def distance_calls_def)
    next
      case (Some rss)
      define a2 where
        "a2 = a\<lparr>calls := calls a @ [FwdKin rp, InvKin (iso_mul s (iso_inverse s tf) p)]\<rparr>"
      define b2 where
        "b2 = b\<lparr>calls := calls b @ [FwdKin rp, InvKin (iso_mul s (iso_inverse s tf) p)]\<rparr>"
      have pos: "0 < robot_numJoints s"
        using run fk reach Some by (cases "robot_numJoints s = 0") (simp_all add: ikAt_def)
      have collect: "for_each (ikAt_branch s rp rss False)
                       [0..<length rss div robot_numJoints s] a2 = Inr a'"
        using run fk reach Some pos
        by (simp add: ikAt_def a2_def split: sum.splits)
      have same2: "length (solution_set a') = length (solution_set a2)"
        using same by (simp add: a2_def)
      have "\<exists>b'. for_each (ikAt_branch s rp rss True)
                   [0..<length rss div robot_numJoints s] b2 = Inr b' \<and> quiet b2 b'"
      proof (rule for_each_sim[where m = "\<lambda>c. length (solution_set c)", OF collect same2])
        fix i c c'
        assume "ikAt_branch s rp rss False i c = Inr c'"
        then show "length (solution_set c) \<le> length (solution_set c')"
          by (rule ikAt_branch_mono)
      next
        fix i c c' d
        assume i: "i \<in> set [0..<length rss div robot_numJoints s]"
          and c: "ikAt_branch s rp rss False i c = Inr c'"
          and eq: "length (solution_set c') = length (solution_set c)"
        have "length (take (robot_numJoints s) (drop (robot_numJoints s * i) rss)) = robot_numJoints s"
          using i by (intro branch_length[OF pos]) simp
        then have "full_sol s rp rss i \<noteq> []" using pos by (auto simp: full_sol_def)
        from ikAt_branch_sim[OF none c eq this]
        show "\<exists>d'. ikAt_branch s rp rss True i d = Inr d' \<and> quiet d d'"
          by (simp add: quiet_refl)
      qed
      then obtain b' where b': "for_each (ikAt_branch s rp rss True)
                   [0..<length rss div robot_numJoints s] b2 = Inr b'" "quiet b2 b'"
        by blast
      have "ikAt s p rp True b = Inr (solution_set b' \<noteq> [], b')"
        using fk reach Some pos b'(1) by (simp add: ikAt_def b2_def)
      moreover have "quiet b b2" by (simp add: quiet_def distance_calls_def b2_def)
      ultimately show ?thesis using b'(2) quiet_trans by (simp, blast)
    qed
  qed
qed

lemma nested_ik_sim:
  assumes none: "collision s = None"
    and run: "nested_ik s l dr p sp False a = Inr a'"
    and same: "length (solution_set a') = length (solution_set a)"
  shows "\<exists>b'. nested_ik s l dr p sp True b = Inr b' \<and> quiet b b'"
  using run same
proof (induction "railed_numJoints s - l" arbitrary: l sp a a' b)
  case 0
  then have l: "railed_numJoints s \<le> l" by simp
  then have "(case ikAt s p sp False a of Inl e \<Rightarrow> Inl e | Inr r \<Rightarrow> Inr (snd r)) = Inr a'"
    using "0.prems"(1) by (simp only: nested_ik_leaf)
  then have "ikAt s p sp False a = Inr (fst (projr (ikAt s p sp False a)), a')"
    by (cases "ikAt s p sp False a") (simp_all add: prod_eq_iff)
  from ikAt_sim[OF none this "0.prems"(2), of b]
  obtain r where r: "ikAt s p sp True b = Inr r" "quiet b (snd r)" by blast
  then have "nested_ik s l dr p sp True b = Inr (snd r) \<and> quiet b (snd r)"
    by (simp add: nested_ik_leaf[OF l])
  then show ?case by (rule exI)
next
  case (Suc k)
  then have l: "l < railed_numJoints s" by simp
  have l': "l < length dr"
    using Suc.prems(1) l by (cases "l < length dr") (simp_all add: nested_ik_short)
  have k: "k = railed_numJoints s - (l + 1)" using Suc.hyps(2) by simp
  have collect: "for_each (\<lambda>v st'. nested_ik s (l + 1) dr p (sp[l := v]) False st') (dr ! l) a = Inr a'"
    using Suc.prems(1) nested_ik_node[OF l l'] by simp
  have "\<exists>b'. for_each (\<lambda>v st'. nested_ik s (l + 1) dr p (sp[l := v]) True st') (dr ! l) b = Inr b'
          \<and> quiet b b'"
  proof (rule for_each_sim[where m = "\<lambda>c. length (solution_set c)", OF collect Suc.prems(2)])
    fix v c c'
    assume "nested_ik s (l + 1) dr p (sp[l := v]) False c = Inr c'"
    then show "length (solution_set c) \<le> length (solution_set c')" by (rule nested_ik_mono)
  next
    fix v c c' d
    assume "nested_ik s (l + 1) dr p (sp[l := v]) False c = Inr c'"
      and "length (solution_set c') = length (solution_set c)"
    then show "\<exists>d'. nested_ik s (l + 1) dr p (sp[l := v]) True d = Inr d' \<and> quiet d d'"
      by (rule Suc.hyps(1)[OF k])
  qed
  then show ?case by (simp add: nested_ik_node[OF l l'])
qed

lemma tool_poses_loop_sim:
  assumes none: "collision s = None"
    and run: "tool_poses_loop s poses dr False a = Inr a'"
    and same: "length (solution_set a') = length (solution_set a)"
  shows "\<exists>b'. tool_poses_loop s poses dr True b = Inr b' \<and> quiet b b'"
  unfolding tool_poses_loop_def
proof (rule for_each_sim[where m = "\<lambda>c. length (solution_set c)",
      OF run[unfolded tool_poses_loop_def] same])
  fix tp c c'
  assume "nested_ik s 0 dr (rail_frame s tp) (replicate (railed_numJoints s) 0) False c = Inr c'"
  then show "length (solution_set c) \<le> length (solution_set c')" by (rule nested_ik_mono)
next
  fix tp c c' d
  assume "nested_ik s 0 dr (rail_frame s tp) (replicate (railed_numJoints s) 0) False c = Inr c'"
    and "length (solution_set c') = length (solution_set c)"
  then show "\<exists>d'. nested_ik s 0 dr (rail_frame s tp) (replicate (railed_numJoints s) 0) True d
                 = Inr d' \<and> quiet d d'"
    by (rule nested_ik_sim[OF none])
qed

subsection \<open>Faults of the collect-all pass\<close>

lemma for_each_fault_free:
  assumes "\<And>x a. x \<in> set xs \<Longrightarrow> body x a \<noteq> Inl e"
  shows "for_each body xs st \<noteq> Inl e"
  using assms
proof (induction xs arbitrary: st)
  case Nil
  then show ?case by simp
next
  case (Cons x xs)
  have "body x st \<noteq> Inl e" using Cons.prems by simp
  moreover have "for_each body xs a \<noteq> Inl e" for a
    by (rule Cons.IH) (use Cons.prems in auto)
  ultimately show ?case by (cases "body x st") simp_all
qed

lemma ikAt_collect_no_null: "ikAt s p rp False st \<noteq> Inl NullCollision"
proof (cases "robot_numJoints s = 0")
  case False
  then obtain r where "ikAt s p rp False st = Inr r" using ikAt_total[of s False p rp st] by auto
  then show ?thesis by simp
next
  case True
  then show ?thesis
    by (simp add: ikAt_def Let_def split: option.splits)
qed

lemma nested_ik_collect_no_null: "nested_ik s l dr p sp False st \<noteq> Inl NullCollision"
proof (induction "railed_numJoints s - l" arbitrary: l sp st)
  case 0
  then have l: "railed_numJoints s \<le> l" by simp
  show ?case using ikAt_collect_no_null[of s p sp st]
    by (cases "ikAt s p sp False st") (simp_all add: nested_ik_leaf[OF l])
next
  case (Suc k)
  then have l: "l < railed_numJoints s" by simp
  have k: "k = railed_numJoints s - (l + 1)" using Suc.hyps(2) by simp
  show ?case
  proof (cases "l < length dr")
    case False
    then show ?thesis using l by (simp add: nested_ik_short)
  next
    case True
    have "for_each (\<lambda>v st'. nested_ik s (l + 1) dr p (sp[l := v]) False st') (dr ! l) st
            \<noteq> Inl NullCollision"
      by (rule for_each_fault_free) (rule Suc.hyps(1)[OF k])
    then show ?thesis by (simp add: nested_ik_node[OF l True])
  qed
qed

lemma tool_poses_loop_collect_no_null:
  "tool_poses_loop s poses dr False st \<noteq> Inl NullCollision"
  unfolding tool_poses_loop_def
  by (rule for_each_fault_free) (rule nested_ik_collect_no_null)

lemma dof_grid_no_null: "dof_grid s d \<noteq> Inl NullCollision"
  by (simp add: dof_grid_def dof_cnt_def Let_def split: sum.splits option.splits)

lemma dof_ranges_no_null: "dof_ranges s ds \<noteq> Inl NullCollision"
proof (induction ds)
  case Nil
  then show ?case by simp
next
  case (Cons d ds)
  then show ?case using dof_grid_no_null[of s d]
    by (cases "dof_grid s d"; cases "dof_ranges s ds") simp_all
qed

lemma build_dof_range_no_null: "build_dof_range s \<noteq> Inl NullCollision"
  by (simp add: build_dof_range_def dof_ranges_no_null)

subsection \<open>Distance queries\<close>

lemma ikAt_collect_distance_calls:
  assumes "ikAt s p rp False st = Inr (ok, st')"
  shows "distance_calls st' = distance_calls st"
  using assms
proof (cases rule: ikAt_cases)
  case skipped
  then show ?thesis by (simp add: distance_calls_def)
next
  case (no_ik tf)
  then show ?thesis by (simp add: distance_calls_def)
next
  case (branches tf rss)
  have "distance_calls st' = distance_calls (st\<lparr>calls := calls st @
             [FwdKin rp, InvKin (iso_mul s (iso_inverse s tf) p)]\<rparr>)"
  proof (rule for_each_inv[where I = "\<lambda>a. distance_calls a = distance_calls (st\<lparr>calls := calls st @
             [FwdKin rp, InvKin (iso_mul s (iso_inverse s tf) p)]\<rparr>)", OF branches(5)])
    fix i a a'
    assume "distance_calls a = distance_calls (st\<lparr>calls := calls st @
             [FwdKin rp, InvKin (iso_mul s (iso_inverse s tf) p)]\<rparr>)"
      and "ikAt_branch s rp rss False i a = Inr a'"
    then show "distance_calls a' = distance_calls (st\<lparr>calls := calls st @
             [FwdKin rp, InvKin (iso_mul s (iso_inverse s tf) p)]\<rparr>)"
      by (auto simp: ikAt_branch_False distance_calls_def split: if_splits)
  qed simp
  then show ?thesis by (simp add: distance_calls_def)
qed

lemma tool_poses_loop_collect_distance_calls:
  assumes "tool_poses_loop s poses dr False st = Inr st'"
  shows "distance_calls st' = distance_calls st"
proof (rule tool_poses_loop_inv[where I = "\<lambda>a. distance_calls a = distance_calls st", OF assms])
  fix p rp a ok a'
  assume "distance_calls a = distance_calls st" "ikAt s p rp False a = Inr (ok, a')"
  then show "distance_calls a' = distance_calls st"
    using ikAt_collect_distance_calls[of s p rp a ok a'] by simp
qed simp

subsection \<open>The collect-all pass as a whole\<close>

lemma tool_poses_loop_kept:
  assumes "tool_poses_loop s poses dr False st = Inr st'"
  shows "kept_from s (solution_set st) (solution_set st')"
proof (rule tool_poses_loop_inv[where I = "\<lambda>a. kept_from s (solution_set st) (solution_set a)",
      OF assms])
  show "kept_from s (solution_set st) (solution_set st)" by (rule kept_from_refl)
next
  fix p rp a ok a'
  assume "length rp = railed_numJoints s" "kept_from s (solution_set st) (solution_set a)"
    "ikAt s p rp False a = Inr (ok, a')"
  then show "kept_from s (solution_set st) (solution_set a')"
    using ikAt_kept[of s p rp a ok a' "solution_set st"] by simp
qed

lemma tool_poses_loop_dvd:
  assumes "tool_poses_loop s poses dr gb st = Inr st'"
    and "dof s dvd length (solution_set st)"
  shows "dof s dvd length (solution_set st')"
proof (rule tool_poses_loop_inv[where I = "\<lambda>a. dof s dvd length (solution_set a)", OF assms])
  fix p rp a ok a'
  assume "length rp = railed_numJoints s" "dof s dvd length (solution_set a)"
    "ikAt s p rp gb a = Inr (ok, a')"
  then show "dof s dvd length (solution_set a')"
    using ikAt_dvd[of s p rp gb a ok a'] by simp
qed

lemma tool_poses_loop_within_reach:
  assumes "tool_poses_loop s poses dr gb st = Inr st'"
    and "list_all (\<lambda>q. iso_translation_norm s q \<le> robot_reach s) (inv_kin_poses (calls st))"
  shows "list_all (\<lambda>q. iso_translation_norm s q \<le> robot_reach s) (inv_kin_poses (calls st'))"
proof (rule tool_poses_loop_inv[where
      I = "\<lambda>a. list_all (\<lambda>q. iso_translation_norm s q \<le> robot_reach s) (inv_kin_poses (calls a))",
      OF assms])
  fix p rp a ok a'
  assume "list_all (\<lambda>q. iso_translation_norm s q \<le> robot_reach s) (inv_kin_poses (calls a))"
    "ikAt s p rp gb a = Inr (ok, a')"
  then show "list_all (\<lambda>q. iso_translation_norm s q \<le> robot_reach s) (inv_kin_poses (calls a'))"
    using ikAt_within_reach[of s p rp gb a ok a'] by simp
qed

section \<open>The search operation\<close>

lemma sample_primary:
  assumes "build_dof_range s = Inr dr"
    and "tool_poses_loop s (tool_pose_sampler s (tool_pose s)) dr False (init_search ss) = Inr st1"
    and "\<not> (solution_set st1 = [] \<and> allow_collision s)"
  shows "sample s ss = Inr (solution_set st1 \<noteq> [], st1)"
proof -
  have "(if solution_set st1 = [] \<and> allow_collision s
         then (case getBestSolution s (tool_pose_sampler s (tool_pose s)) dr st1 of
                 Inl e \<Rightarrow> Inl e
               | Inr r \<Rightarrow> Inr (solution_set (snd r) \<noteq> [], snd r))
         else Inr (solution_set st1 \<noteq> [], st1)) = Inr (solution_set st1 \<noteq> [], st1)"
    using assms(3) by (simp only: if_False)
  then show ?thesis using assms(1,2) by (simp add: sample_def)
qed

lemma sample_fallback:
  assumes "build_dof_range s = Inr dr"
    and "tool_poses_loop s (tool_pose_sampler s (tool_pose s)) dr False (init_search ss) = Inr st1"
    and "solution_set st1 = []" and "allow_collision s"
    and "tool_poses_loop s (tool_pose_sampler s (tool_pose s)) dr True
           (st1\<lparr>distance := numeric_limits_min\<rparr>) = Inr st2"
  shows "sample s ss = Inr (solution_set st2 \<noteq> [], st2\<lparr>distance := distance st1\<rparr>)"
  using assms by (simp add: sample_def getBestSolution_def)

lemma sample_cases:
  assumes "sample s ss = Inr (ok, st)"
  obtains (primary) dr where "build_dof_range s = Inr dr"
      "tool_poses_loop s (tool_pose_sampler s (tool_pose s)) dr False (init_search ss) = Inr st"
      "\<not> (solution_set st = [] \<and> allow_collision s)" "ok = (solution_set st \<noteq> [])"
    | (fallback) dr st1 st2 where "build_dof_range s = Inr dr"
      "tool_poses_loop s (tool_pose_sampler s (tool_pose s)) dr False (init_search ss) = Inr st1"
      "solution_set st1 = []" "allow_collision s"
      "tool_poses_loop s (tool_pose_sampler s (tool_pose s)) dr True
         (st1\<lparr>distance := numeric_limits_min\<rparr>) = Inr st2"
      "st = st2\<lparr>distance := distance st1\<rparr>" "ok = (solution_set st \<noteq> [])"
proof (cases "build_dof_range s")
  case (Inl e)
  then show ?thesis using assms by (simp add: sample_def)
next
  case (Inr dr)
  note dr = Inr
  show ?thesis
  proof (cases "tool_poses_loop s (tool_pose_sampler s (tool_pose s)) dr False (init_search ss)")
    case (Inl e)
    then show ?thesis using assms dr by (simp add: sample_def)
  next
    case (Inr st1)
    note st1 = Inr
    show ?thesis
    proof (cases "solution_set st1 = [] \<and> allow_collision s")
      case False
      from sample_primary[OF dr st1 False] assms
      have "ok = (solution_set st1 \<noteq> [])" "st = st1" by simp_all
      then show ?thesis using primary[OF dr] st1 False by simp
    next
      case True
      show ?thesis
      proof (cases "tool_poses_loop s (tool_pose_sampler s (tool_pose s)) dr True
                      (st1\<lparr>distance := numeric_limits_min\<rparr>)")
        case (Inl e)
        then show ?thesis using assms dr st1 True by (simp add: sample_def getBestSolution_def)
      next
        case (Inr st2)
        from sample_fallback[OF dr st1 _ _ Inr] True assms
        have "ok = (solution_set st2 \<noteq> [])" "st = st2\<lparr>distance := distance st1\<rparr>" by simp_all
        then show ?thesis using fallback[OF dr st1 _ _ Inr] True by simp
      qed
    qed
  qed
qed

lemma collect_empty_keeps_length:
  assumes "tool_poses_loop s poses dr False (init_search ss) = Inr st1"
    and "solution_set st1 = []"
  shows "ss = []"
    and "length (solution_set st1) = length (solution_set (st1\<lparr>distance := d\<rparr>))"
proof -
  from tool_poses_loop_kept[OF assms(1)] assms(2)
  show "ss = []" by (simp add: kept_from_def init_search_def)
  show "length (solution_set st1) = length (solution_set (st1\<lparr>distance := d\<rparr>))" by simp
qed

lemma fallback_without_collision:
  assumes none: "collision s = None"
    and run: "tool_poses_loop s poses dr False (init_search ss) = Inr st1"
    and empty: "solution_set st1 = []"
  shows "\<exists>st2. tool_poses_loop s poses dr True (st1\<lparr>distance := numeric_limits_min\<rparr>) = Inr st2 \<and>
               quiet (st1\<lparr>distance := numeric_limits_min\<rparr>) st2"
proof -
  have "ss = []" using collect_empty_keeps_length(1)[OF run empty] .
  then have "length (solution_set st1) = length (solution_set (init_search ss :: 'a search))"
    using empty by (simp add: init_search_def)
  from tool_poses_loop_sim[OF none run this] show ?thesis .
qed

lemma sample_total:
  assumes "well_formed s"
  shows "\<exists>r. sample s ss = Inr r"
proof -
  from well_formed_build[OF assms] obtain dr where dr: "build_dof_range s = Inr dr" by blast
  have len: "railed_numJoints s \<le> length dr" using build_dof_range_length[OF dr] by simp
  have pos: "0 < robot_numJoints s" using assms by (simp add: well_formed_def)
  obtain st1 where st1:
    "tool_poses_loop s (tool_pose_sampler s (tool_pose s)) dr False (init_search ss) = Inr st1"
    using tool_poses_loop_total[OF pos _ len, of False] by auto
  show ?thesis
  proof (cases "solution_set st1 = [] \<and> allow_collision s")
    case False
    from sample_primary[OF dr st1 False] show ?thesis by (rule exI)
  next
    case True
    have "\<exists>st2. tool_poses_loop s (tool_pose_sampler s (tool_pose s)) dr True
                  (st1\<lparr>distance := numeric_limits_min\<rparr>) = Inr st2"
    proof (cases "collision s")
      case None
      from fallback_without_collision[OF None st1] True show ?thesis by blast
    next
      case (Some c)
      then show ?thesis using tool_poses_loop_total[OF pos _ len, of True] by auto
    qed
    then obtain st2 where "tool_poses_loop s (tool_pose_sampler s (tool_pose s)) dr True
                  (st1\<lparr>distance := numeric_limits_min\<rparr>) = Inr st2" by blast
    from sample_fallback[OF dr st1 _ _ this] True show ?thesis by blast
  qed
qed

lemma sample_no_null:
  assumes none: "collision s = None"
  shows "sample s ss \<noteq> Inl NullCollision"
proof (cases "build_dof_range s")
  case (Inl e)
  then show ?thesis using build_dof_range_no_null[of s] by (simp add: sample_def)
next
  case (Inr dr)
  note dr = Inr
  show ?thesis
  proof (cases "tool_poses_loop s (tool_pose_sampler s (tool_pose s)) dr False (init_search ss)")
    case (Inl e)
    then show ?thesis
      using dr tool_poses_loop_collect_no_null[of s "tool_pose_sampler s (tool_pose s)" dr "init_search ss"]
      by (simp add: sample_def)
  next
    case (Inr st1)
    show ?thesis
    proof (cases "solution_set st1 = [] \<and> allow_collision s")
      case False
      from sample_primary[OF dr Inr False] show ?thesis by simp
    next
      case True
      from fallback_without_collision[OF none Inr] True
      obtain st2 where "tool_poses_loop s (tool_pose_sampler s (tool_pose s)) dr True
                  (st1\<lparr>distance := numeric_limits_min\<rparr>) = Inr st2" by blast
      from sample_fallback[OF dr Inr _ _ this] True show ?thesis by simp
    qed
  qed
qed

lemma sample_no_distance_query:
  assumes none: "collision s = None" and run: "sample s ss = Inr (ok, st)"
  shows "distance_calls st = 0"
  using run
proof (cases rule: sample_cases)
  case (primary dr)
  from tool_poses_loop_collect_distance_calls[OF primary(2)]
  show ?thesis by (simp add: init_search_def distance_calls_def)
next
  case (fallback dr st1 st2)
  from fallback_without_collision[OF none fallback(2,3)] fallback(5)
  have "quiet (st1\<lparr>distance := numeric_limits_min\<rparr>) st2" by simp
  then have "distance_calls st2 = distance_calls st1" by (simp add: quiet_def distance_calls_def)
  moreover from tool_poses_loop_collect_distance_calls[OF fallback(2)]
  have "distance_calls st1 = 0" by (simp add: init_search_def distance_calls_def)
  ultimately show ?thesis using fallback(6) by (simp add: distance_calls_def)
qed

section \<open>The examples, evaluated\<close>

lemma line_sampler_sel:
  "tool_pose (line_sampler lims res ik coll allow offs) = 0"
  "tool_pose_sampler (line_sampler lims res ik coll allow offs) = (\<lambda>p. map (\<lambda>off. p + off) offs)"
  "railed_calcFwdKin (line_sampler lims res ik coll allow offs) = (\<lambda>q. Some (sum_list q))"
  "railed_numJoints (line_sampler lims res ik coll allow offs) = length lims"
  "railed_limits (line_sampler lims res ik coll allow offs) = lims"
  "robot_calcInvKin (line_sampler lims res ik coll allow offs) = ik"
  "robot_numJoints (line_sampler lims res ik coll allow offs) = 1"
  "collision (line_sampler lims res ik coll allow offs) = coll"
  "world_to_railed_base (line_sampler lims res ik coll allow offs) = 0"
  "railed_sample_resolution (line_sampler lims res ik coll allow offs) = res"
  "robot_tcp (line_sampler lims res ik coll allow offs) = 0"
  "robot_reach (line_sampler lims res ik coll allow offs) = 10"
  "allow_collision (line_sampler lims res ik coll allow offs) = allow"
  "is_valid (line_sampler lims res ik coll allow offs) = (\<lambda>v. True)"
  "iso_inverse (line_sampler lims res ik coll allow offs) = uminus"
  "iso_mul (line_sampler lims res ik coll allow offs) = (+)"
  "iso_translation_norm (line_sampler lims res ik coll allow offs) = abs"
  by (simp_all add: line_sampler_def)

lemma scale_exponent_numeral:
  "scale_exponent (numeral k) x e =
     (if 2 \<le> x then scale_exponent (pred_numeral k) (x / 2) (e + 1)
      else if x < 1 then scale_exponent (pred_numeral k) (2 * x) (e - 1)
      else e)"
  by (simp add: numeral_eq_Suc)

lemma scale_exponent_zero: "scale_exponent n 0 e = e - int n"
  by (induction n arbitrary: e) simp_all

lemma round_double_zero: "round_double 0 = Some 0"
  by (simp add: round_double_def binade_def scale_exponent_zero round_half_even_def DBL_MAX_def)

lemmas double_eval = round_double_def binade_def scale_exponent_numeral round_half_even_def
  DBL_MAX_def Let_def

lemma round_double_values:
  "round_double 1 = Some 1"
  "round_double (- 1) = Some (- 1)"
  "round_double (5 / 2) = Some (5 / 2)"
  "round_double (- (1 / 2)) = Some (- (1 / 2))"
  "round_double (10 / 3) = Some (7505999378950827 / 2 ^ 51)"
  by (simp_all add: double_eval)

lemmas grid_eval = build_dof_range_def dof_grid_def dof_cnt_def LinSpaced_def INT_MAX_def
  upt_conv_Cons line_sampler_sel round_double_zero round_double_values

lemmas search_eval = tool_poses_loop_def nested_ik.simps ikAt_def ikAt_branch_def
  isCollisionFree_def rail_frame_def dof_def ik_seed_def init_search_def getBestSolution_def
  ik_off_origin_def ik_never_def line_sampler_sel upt_conv_Cons Let_def

lemma numeric_limits_min_pos: "0 < numeric_limits_min"
  by (simp add: numeric_limits_min_def)

lemma numeric_limits_min_cmp:
  "\<not> numeric_limits_min < - (1 / 10)" "\<not> numeric_limits_min < - (1 / 20)"
  "numeric_limits_min < 1" "numeric_limits_min < 2"
  using numeric_limits_min_pos by (simp_all add: numeric_limits_min_def)

lemma unit_interval_grid:
  "build_dof_range (line_sampler [(0, 1)] [2 / 5] ik coll allow offs) = Inr [[0, 1 / 2, 1]]"
  by (simp add: grid_eval)

lemma penetrating_run:
  "sample penetrating_sampler [] =
     Inr (False,
          \<lparr>solution_set = [], distance = numeric_limits_min,
           calls = [FwdKin [0], InvKin 0, FwdKin [1 / 2], InvKin (- (1 / 2)),
                    FwdKin [1], InvKin (- 1), FwdKin [0], InvKin 0, FwdKin [1 / 2],
                    InvKin (- (1 / 2)), Distance [1 / 2, - (1 / 2)], FwdKin [1],
                    InvKin (- 1), Distance [1, - 1]]\<rparr>)"
  unfolding penetrating_sampler_def
  by (simp add: sample_def unit_interval_grid)
     (simp add: search_eval penetrating_def numeric_limits_min_cmp)

lemma penetrating_run_nonempty:
  "sample penetrating_sampler [7, 7] =
     Inr (True,
          \<lparr>solution_set = [7, 7], distance = numeric_limits_min,
           calls = [FwdKin [0], InvKin 0, FwdKin [1 / 2], InvKin (- (1 / 2)),
                    FwdKin [1], InvKin (- 1)]\<rparr>)"
  unfolding penetrating_sampler_def
  by (simp add: sample_def unit_interval_grid)
     (simp add: search_eval penetrating_def)

lemma too_close_run:
  "sample too_close_sampler [] =
     Inr (True,
          \<lparr>solution_set = [1, - 1, 1 / 2, - (1 / 2)], distance = numeric_limits_min,
           calls = [FwdKin [0], InvKin 0, FwdKin [1 / 2], InvKin (- (1 / 2)),
                    FwdKin [1], InvKin (- 1), FwdKin [0], InvKin 0, FwdKin [1 / 2],
                    InvKin (- (1 / 2)), Distance [1 / 2, - (1 / 2)], FwdKin [1],
                    InvKin (- 1), Distance [1, - 1]]\<rparr>)"
  unfolding too_close_sampler_def
  by (simp add: sample_def unit_interval_grid)
     (simp add: search_eval too_close_def numeric_limits_min_cmp)

lemma coarse_grid: "dof_grid coarse_sampler 0 = Inr [1]"
  by (simp add: coarse_sampler_def grid_eval)

lemma point_grid: "dof_grid point_sampler 0 = Inr []"
  by (simp add: point_sampler_def grid_eval)



lemma no_collision_run:
  "sample no_collision_sampler [] =
     Inr (False,
          \<lparr>solution_set = [], distance = numeric_limits_min,
           calls = [FwdKin [0], InvKin 0, FwdKin [1 / 2], InvKin (- (1 / 2)), FwdKin [1],
                    InvKin (- 1), FwdKin [0], InvKin 0, FwdKin [1 / 2], InvKin (- (1 / 2)),
                    FwdKin [1], InvKin (- 1)]\<rparr>)"
  unfolding no_collision_sampler_def
  by (simp add: sample_def unit_interval_grid) (simp add: search_eval)

lemma picky_pass:
  "tool_poses_loop picky_sampler [0] [[0, 1 / 2, 1]] False (init_search []) =
     Inr \<lparr>solution_set = [1, - 1], distance = numeric_limits_min,
          calls = [FwdKin [0], InvKin 0, FwdKin [1 / 2], InvKin (- (1 / 2)),
                   FwdKin [1], InvKin (- 1)]\<rparr>"
  by (simp add: picky_sampler_def search_eval picky_def)

lemma far_run:
  "sample far_sampler [] =
     Inr (True,
          \<lparr>solution_set = [1 / 2, 10, 1, 19 / 2], distance = numeric_limits_min,
           calls = [FwdKin [0], FwdKin [1 / 2], InvKin 10, FwdKin [1], InvKin (19 / 2)]\<rparr>)"
  unfolding far_sampler_def
  by (simp add: sample_def unit_interval_grid) (simp add: search_eval)

lemma two_rail_grid:
  "build_dof_range two_rail_sampler = Inr [[0, 1 / 2, 1], [0, 1 / 3, 2 / 3, 1]]"
  by (simp add: two_rail_sampler_def grid_eval)

lemma well_formed_line:
  "well_formed (line_sampler [(0, 1)] [2 / 5] ik coll allow offs)"
  "well_formed inverted_sampler"
  by (simp_all add: well_formed_def inverted_sampler_def line_sampler_sel INT_MAX_def
      round_double_values)

lemma tenth_difference:
  "round_double (snd (railed_limits tenth_sampler ! 0) - fst (railed_limits tenth_sampler ! 0))
     = Some (1351079888211149 / 2 ^ 52)"
  by (simp add: tenth_sampler_def line_sampler_sel double_eval)

lemma tenth_quotient:
  "round_double (\<bar>1351079888211149 / 2 ^ 52\<bar> / railed_sample_resolution tenth_sampler ! 0)
     = Some (6755399441055745 / 2 ^ 51)"
  by (simp add: tenth_sampler_def line_sampler_sel double_eval)

lemma tenth_grid:
  "dof_grid tenth_sampler 0 =
     Inr (LinSpaced 4 (fst (railed_limits tenth_sampler ! 0))
            (snd (railed_limits tenth_sampler ! 0)))"
proof -
  have four: "\<lceil>6755399441055745 / 2 ^ 51 :: real\<rceil> = 4" by simp
  have "dof_grid tenth_sampler 0 =
     Inr (LinSpaced (nat \<lceil>6755399441055745 / 2 ^ 51 :: real\<rceil>)
            (fst (railed_limits tenth_sampler ! 0)) (snd (railed_limits tenth_sampler ! 0)))"
    by (rule dof_grid_built(1)[OF _ _ _ tenth_difference tenth_quotient])
       (simp_all add: tenth_sampler_def line_sampler_sel INT_MAX_def)
  then show ?thesis by (simp only: four) simp
qed

lemma tenth_exact:
  "\<lceil>\<bar>snd (railed_limits tenth_sampler ! 0) - fst (railed_limits tenth_sampler ! 0)\<bar>
      / railed_sample_resolution tenth_sampler ! 0\<rceil> = 3"
  by (simp add: tenth_sampler_def line_sampler_sel)

section \<open>The claims\<close>

subsection \<open>C1: the fallback pass and negative clearances\<close>

text \<open>
  C1 says that the fallback pass returns the single solution of largest clearance, also when
  every clearance is negative: with clearance \<open>-0.1\<close> at rail 0.5 and \<open>-0.05\<close> at rail
  1, exactly the rail-1 solution. The code starts the tracker at
  \<^verbatim>\<open>numeric_limits<double>::min()\<close>, the smallest positive double, so no negative
  clearance is ever strictly greater: on that very example the fallback pass queries both
  distances, accepts neither, and the search returns false with an empty solution set.
\<close>

theorem fallback_rejects_negative_clearances:
  "sample penetrating_sampler [] =
     Inr (False,
          \<lparr>solution_set = [], distance = numeric_limits_min,
           calls = [FwdKin [0], InvKin 0, FwdKin [1 / 2], InvKin (- (1 / 2)),
                    FwdKin [1], InvKin (- 1), FwdKin [0], InvKin 0, FwdKin [1 / 2],
                    InvKin (- (1 / 2)), Distance [1 / 2, - (1 / 2)], FwdKin [1],
                    InvKin (- 1), Distance [1, - 1]]\<rparr>)"
  by (rule penetrating_run)

subsection \<open>C2: how many solutions best-only mode holds\<close>

text \<open>
  C2 says that in best-only mode the solution set holds at most one solution, an accepted one
  replacing the current entry. The code inserts each strict improvement at the front and
  removes nothing: with clearance 1 at rail 0.5 and 2 at rail 1 the fallback pass ends with
  both solutions, the better one first.
\<close>

theorem fallback_keeps_superseded_solution:
  "sample too_close_sampler [] =
     Inr (True,
          \<lparr>solution_set = [1, - 1, 1 / 2, - (1 / 2)], distance = numeric_limits_min,
           calls = [FwdKin [0], InvKin 0, FwdKin [1 / 2], InvKin (- (1 / 2)),
                    FwdKin [1], InvKin (- 1), FwdKin [0], InvKin 0, FwdKin [1 / 2],
                    InvKin (- (1 / 2)), Distance [1 / 2, - (1 / 2)], FwdKin [1],
                    InvKin (- 1), Distance [1, - 1]]\<rparr>)"
  by (rule too_close_run)

subsection \<open>C3: the grid of one rail joint\<close>

text \<open>
  C3 as stated fails in three ways. Bounds \<open>[0, 1]\<close> with resolution 1 give a count of 1
  and the one-point grid \<open>[1]\<close>, whose first element is not the lower bound. Bounds
  \<open>[0, 0]\<close> give a count of 0 and an empty grid, which has no first or last element. And
  the count is the ceiling of the quotient as the doubles give it, not of the exact quotient:
  for bounds \<open>[0.1, 0.4]\<close> and resolution \<open>0.1\<close> the difference rounds up to
  \<open>0.30000000000000004\<close>, the quotient to \<open>3.0000000000000004\<close>, and the grid has 4
  elements where \<open>ceil(|high - low| / r)\<close> is 3.
\<close>

theorem short_grid_counterexample:
  "dof_grid coarse_sampler 0 = Inr [1] \<and>
   \<not> grid_as_specified (fst (railed_limits coarse_sampler ! 0))
        (snd (railed_limits coarse_sampler ! 0))
        (railed_sample_resolution coarse_sampler ! 0) [1] \<and>
   dof_grid point_sampler 0 = Inr [] \<and>
   \<not> grid_as_specified (fst (railed_limits point_sampler ! 0))
        (snd (railed_limits point_sampler ! 0))
        (railed_sample_resolution point_sampler ! 0) [] \<and>
   dof_grid tenth_sampler 0 =
     Inr (LinSpaced 4 (fst (railed_limits tenth_sampler ! 0))
            (snd (railed_limits tenth_sampler ! 0))) \<and>
   \<not> grid_as_specified (fst (railed_limits tenth_sampler ! 0))
        (snd (railed_limits tenth_sampler ! 0))
        (railed_sample_resolution tenth_sampler ! 0)
        (LinSpaced 4 (fst (railed_limits tenth_sampler ! 0))
           (snd (railed_limits tenth_sampler ! 0)))"
proof (intro conjI)
  show "dof_grid coarse_sampler 0 = Inr [1]" by (rule coarse_grid)
  show "\<not> grid_as_specified (fst (railed_limits coarse_sampler ! 0))
        (snd (railed_limits coarse_sampler ! 0))
        (railed_sample_resolution coarse_sampler ! 0) [1]"
    by (simp add: coarse_sampler_def line_sampler_sel grid_as_specified_def)
  show "dof_grid point_sampler 0 = Inr []" by (rule point_grid)
  show "\<not> grid_as_specified (fst (railed_limits point_sampler ! 0))
        (snd (railed_limits point_sampler ! 0))
        (railed_sample_resolution point_sampler ! 0) []"
    by (simp add: grid_as_specified_def)
  show "dof_grid tenth_sampler 0 =
     Inr (LinSpaced 4 (fst (railed_limits tenth_sampler ! 0))
            (snd (railed_limits tenth_sampler ! 0)))"
    by (rule tenth_grid)
  show "\<not> grid_as_specified (fst (railed_limits tenth_sampler ! 0))
        (snd (railed_limits tenth_sampler ! 0))
        (railed_sample_resolution tenth_sampler ! 0)
        (LinSpaced 4 (fst (railed_limits tenth_sampler ! 0))
           (snd (railed_limits tenth_sampler ! 0)))"
    unfolding grid_as_specified_def by (simp only: tenth_exact LinSpaced_length) simp
qed

text \<open>
  C3, amended: for a rail joint with positive resolution \<open>r\<close>, let \<open>q\<close> be the quotient
  \<open>|high - low| / r\<close> as line 80 computes it in double arithmetic (the difference rounded,
  then the quotient rounded), with a ceiling that fits \<^verbatim>\<open>int\<close>. The grid is built and
  has exactly \<open>ceil(q)\<close> elements; it is non-decreasing whenever \<open>low \<le> high\<close>; its
  last element is \<open>high\<close> whenever the count is at least 1; and its first element is
  \<open>low\<close> whenever the count is at least 2.
\<close>

theorem grid_of_rail_joint:
  assumes "d < length (railed_limits s)" and "d < length (railed_sample_resolution s)"
    and "0 < railed_sample_resolution s ! d"
    and "round_double (snd (railed_limits s ! d) - fst (railed_limits s ! d)) = Some diff"
    and "round_double (\<bar>diff\<bar> / railed_sample_resolution s ! d) = Some quot"
    and "\<lceil>quot\<rceil> \<le> INT_MAX"
  shows "\<exists>g. dof_grid s d = Inr g \<and> int (length g) = \<lceil>quot\<rceil> \<and>
              (fst (railed_limits s ! d) \<le> snd (railed_limits s ! d) \<longrightarrow> sorted g) \<and>
              (1 \<le> \<lceil>quot\<rceil> \<longrightarrow> last g = snd (railed_limits s ! d)) \<and>
              (2 \<le> \<lceil>quot\<rceil> \<longrightarrow> hd g = fst (railed_limits s ! d))"
proof -
  define low where "low = fst (railed_limits s ! d)"
  define high where "high = snd (railed_limits s ! d)"
  define n where "n = nat \<lceil>quot\<rceil>"
  have grid: "dof_grid s d = Inr (LinSpaced n low high)"
    using dof_grid_built(1)[OF assms] by (simp add: n_def low_def high_def)
  have n: "int n = \<lceil>quot\<rceil>" using dof_grid_built(2)[OF assms] by (simp add: n_def)
  have len: "int (length (LinSpaced n low high)) = \<lceil>quot\<rceil>"
    using n by (simp add: LinSpaced_length)
  have srt: "low \<le> high \<longrightarrow> sorted (LinSpaced n low high)"
    by (simp add: LinSpaced_sorted)
  have lst: "1 \<le> \<lceil>quot\<rceil> \<longrightarrow> last (LinSpaced n low high) = high"
  proof
    assume "1 \<le> \<lceil>quot\<rceil>"
    then have "n = 1 \<or> 2 \<le> n" using n by linarith
    then show "last (LinSpaced n low high) = high"
    proof
      assume "n = 1"
      then show ?thesis by (simp add: LinSpaced_def)
    next
      assume "2 \<le> n"
      then show ?thesis by (rule LinSpaced_last)
    qed
  qed
  have fst: "2 \<le> \<lceil>quot\<rceil> \<longrightarrow> hd (LinSpaced n low high) = low"
  proof
    assume "2 \<le> \<lceil>quot\<rceil>"
    then have "2 \<le> n" using n by linarith
    then show "hd (LinSpaced n low high) = low" by (rule LinSpaced_hd)
  qed
  from grid len srt lst fst show ?thesis unfolding low_def high_def by blast
qed

theorem grid_of_rail_joint_witness:
  "\<exists>g. dof_grid tenth_sampler 0 = Inr g \<and> int (length g) = 4 \<and> sorted g \<and>
        last g = snd (railed_limits tenth_sampler ! 0) \<and>
        hd g = fst (railed_limits tenth_sampler ! 0)"
proof -
  have four: "\<lceil>6755399441055745 / 2 ^ 51 :: real\<rceil> = 4" by simp
  have pre: "(0::nat) < length (railed_limits tenth_sampler)"
    "(0::nat) < length (railed_sample_resolution tenth_sampler)"
    "0 < railed_sample_resolution tenth_sampler ! 0"
    "\<lceil>6755399441055745 / 2 ^ 51 :: real\<rceil> \<le> INT_MAX"
    "fst (railed_limits tenth_sampler ! 0) \<le> snd (railed_limits tenth_sampler ! 0)"
    by (simp_all add: tenth_sampler_def line_sampler_sel INT_MAX_def)
  from grid_of_rail_joint[OF pre(1,2,3) tenth_difference tenth_quotient pre(4)] pre(5)
  show ?thesis by (simp only: four) simp
qed

subsection \<open>C4: malformed limits and resolution\<close>




subsection \<open>C5: best-only mode without a collision capability\<close>

text \<open>
  C5 as stated fails: a search without a collision capability that tolerates collisions is
  not reported as a configuration error. On such a sampler whose inverse kinematics never
  returns a branch, the collect-all pass is empty, the best-only pass runs over the whole grid
  a second time, and the search returns false.
\<close>

theorem best_only_without_collision_counterexample:
  "collision no_collision_sampler = None \<and> allow_collision no_collision_sampler \<and>
   sample no_collision_sampler [] =
     Inr (False,
          \<lparr>solution_set = [], distance = numeric_limits_min,
           calls = [FwdKin [0], InvKin 0, FwdKin [1 / 2], InvKin (- (1 / 2)), FwdKin [1],
                    InvKin (- 1), FwdKin [0], InvKin 0, FwdKin [1 / 2], InvKin (- (1 / 2)),
                    FwdKin [1], InvKin (- 1)]\<rparr>)"
  by (simp add: no_collision_run) (simp add: no_collision_sampler_def line_sampler_sel)

text \<open>
  Where best-only mode meets a valid branch without a collision capability, line 171 calls
  through the null pointer: \<^verbatim>\<open>isCollisionFree\<close> tests for it, line 171 does not.
\<close>

lemma best_only_valid_branch_without_collision:
  assumes "collision s = None" and "is_valid s (full_sol s rp rss i)"
  shows "ikAt_branch s rp rss True i st = Inl NullCollision"
  using assms by (simp add: ikAt_branch_True_None)

text \<open>
  C5, amended: a best-only request without a collision capability is not treated as a
  configuration error, and nothing is detected at construction or at entry: when the
  collect-all pass leaves the solution set empty and collisions are tolerated, the best-only
  pass is run without a collision capability. Provided the collaborators are deterministic
  (kinematics and validity predicate answer in the second pass as they did in the first, as
  the functions of this model do), that pass meets no valid branch, since without a
  collision capability the collect-all pass has kept every valid branch: it runs to its end,
  makes no distance query, and the search returns false with an empty solution set. Under
  the same proviso no search calls through the null pointer, a search that returns has made
  no distance query, and on a well-formed configuration the search returns. What line 171
  does at a valid branch is not part of this statement.
\<close>

theorem best_only_without_collision_returns_false:
  assumes "collision s = None"
  shows "(build_dof_range s = Inr dr \<and>
          tool_poses_loop s (tool_pose_sampler s (tool_pose s)) dr False (init_search ss)
            = Inr st1 \<and>
          solution_set st1 = [] \<and> allow_collision s \<longrightarrow>
            (\<exists>st2. tool_poses_loop s (tool_pose_sampler s (tool_pose s)) dr True
                     (st1\<lparr>distance := numeric_limits_min\<rparr>) = Inr st2 \<and>
                   solution_set st2 = [] \<and> distance_calls st2 = 0 \<and>
                   sample s ss = Inr (False, st2\<lparr>distance := distance st1\<rparr>))) \<and>
         sample s ss \<noteq> Inl NullCollision \<and>
         (\<forall>ok st. sample s ss = Inr (ok, st) \<longrightarrow> distance_calls st = 0) \<and>
         (well_formed s \<longrightarrow> (\<exists>ok st. sample s ss = Inr (ok, st)))"
proof (intro conjI allI impI)
  assume h: "build_dof_range s = Inr dr \<and>
          tool_poses_loop s (tool_pose_sampler s (tool_pose s)) dr False (init_search ss)
            = Inr st1 \<and>
          solution_set st1 = [] \<and> allow_collision s"
  then have dr: "build_dof_range s = Inr dr"
    and st1: "tool_poses_loop s (tool_pose_sampler s (tool_pose s)) dr False (init_search ss)
            = Inr st1"
    and empty: "solution_set st1 = []" and allow: "allow_collision s"
    by simp_all
  from fallback_without_collision[OF assms st1 empty]
  obtain st2 where st2: "tool_poses_loop s (tool_pose_sampler s (tool_pose s)) dr True
                     (st1\<lparr>distance := numeric_limits_min\<rparr>) = Inr st2"
    and q: "quiet (st1\<lparr>distance := numeric_limits_min\<rparr>) st2"
    by blast
  have set2: "solution_set st2 = []" using q empty by (simp add: quiet_def)
  from tool_poses_loop_collect_distance_calls[OF st1]
  have "distance_calls st1 = 0" by (simp add: init_search_def distance_calls_def)
  then have calls2: "distance_calls st2 = 0" using q by (simp add: quiet_def distance_calls_def)
  from sample_fallback[OF dr st1 empty allow st2] set2
  have "sample s ss = Inr (False, st2\<lparr>distance := distance st1\<rparr>)" by simp
  then show "\<exists>st2. tool_poses_loop s (tool_pose_sampler s (tool_pose s)) dr True
                     (st1\<lparr>distance := numeric_limits_min\<rparr>) = Inr st2 \<and>
                   solution_set st2 = [] \<and> distance_calls st2 = 0 \<and>
                   sample s ss = Inr (False, st2\<lparr>distance := distance st1\<rparr>)"
    using st2 set2 calls2 by blast
next
  show "sample s ss \<noteq> Inl NullCollision" by (rule sample_no_null[OF assms])
next
  fix ok st
  assume "sample s ss = Inr (ok, st)"
  then show "distance_calls st = 0" by (rule sample_no_distance_query[OF assms])
next
  assume "well_formed s"
  from sample_total[OF this] obtain r where "sample s ss = Inr r" by blast
  then have "sample s ss = Inr (fst r, snd r)" by simp
  then show "\<exists>ok st. sample s ss = Inr (ok, st)" by blast
qed

theorem best_only_without_collision_returns_false_witness:
  "collision no_collision_sampler = None \<and> well_formed no_collision_sampler \<and>
   allow_collision no_collision_sampler \<and>
   (\<exists>st2. tool_poses_loop no_collision_sampler
            (tool_pose_sampler no_collision_sampler (tool_pose no_collision_sampler))
            [[0, 1 / 2, 1]] True
            (\<lparr>solution_set = [], distance = numeric_limits_min,
               calls = [FwdKin [0], InvKin 0, FwdKin [1 / 2], InvKin (- (1 / 2)), FwdKin [1],
                        InvKin (- 1)]\<rparr>\<lparr>distance := numeric_limits_min\<rparr>) = Inr st2 \<and>
          solution_set st2 = [] \<and> distance_calls st2 = 0 \<and>
          sample no_collision_sampler [] = Inr (False, st2\<lparr>distance := numeric_limits_min\<rparr>)) \<and>
   sample no_collision_sampler [] \<noteq> Inl NullCollision \<and>
   distance_calls
     \<lparr>solution_set = [], distance = numeric_limits_min,
      calls = [FwdKin [0], InvKin 0, FwdKin [1 / 2], InvKin (- (1 / 2)), FwdKin [1],
               InvKin (- 1), FwdKin [0], InvKin 0, FwdKin [1 / 2], InvKin (- (1 / 2)),
               FwdKin [1], InvKin (- 1 :: real)]\<rparr> = 0 \<and>
   (\<exists>ok st. sample no_collision_sampler [] = Inr (ok, st))"
proof -
  have none: "collision no_collision_sampler = None"
    and allow: "allow_collision no_collision_sampler"
    by (simp_all add: no_collision_sampler_def line_sampler_sel)
  have wf: "well_formed no_collision_sampler"
    unfolding no_collision_sampler_def by (rule well_formed_line(1))
  have grid: "build_dof_range no_collision_sampler = Inr [[0, 1 / 2, 1]]"
    unfolding no_collision_sampler_def by (rule unit_interval_grid)
  have pass: "tool_poses_loop no_collision_sampler
       (tool_pose_sampler no_collision_sampler (tool_pose no_collision_sampler))
       [[0, 1 / 2, 1]] False (init_search []) =
     Inr \<lparr>solution_set = [], distance = numeric_limits_min,
          calls = [FwdKin [0], InvKin 0, FwdKin [1 / 2], InvKin (- (1 / 2)), FwdKin [1],
                   InvKin (- 1)]\<rparr>"
    by (simp add: no_collision_sampler_def search_eval)
  from best_only_without_collision_returns_false[OF none, of "[[0, 1 / 2, 1]]" "[]"
      "\<lparr>solution_set = [], distance = numeric_limits_min,
        calls = [FwdKin [0], InvKin 0, FwdKin [1 / 2], InvKin (- (1 / 2)), FwdKin [1],
                 InvKin (- 1)]\<rparr>"]
    none allow wf grid pass no_collision_run
  show ?thesis by simp
qed

subsection \<open>C6: what the collect-all pass keeps\<close>

text \<open>
  C6: every full joint solution kept in collect-all mode satisfies the validity predicate and
  is collision-free according to the collision capability, where no collision capability
  counts as collision-free. Whatever state the collect-all pass over the tool-pose
  candidates starts from, what it returns is that solution set followed by solutions of
  length \<open>dof\<close>, each of them accepted by \<open>is_valid\<close> and, when a collision capability
  is configured, by its \<open>validate\<close>.
\<close>

theorem collect_all_keeps_only_feasible:
  assumes "tool_poses_loop s tool_poses dof_range False st = Inr st'"
  shows "\<exists>sols. solution_set st' = solution_set st @ concat sols \<and>
           list_all
             (\<lambda>sol. length sol = dof s \<and> is_valid s sol \<and>
                (case collision s of None \<Rightarrow> True | Some c \<Rightarrow> coll_validate c sol (dof s)))
             sols"
proof -
  from tool_poses_loop_kept[OF assms]
  obtain sols where "solution_set st' = solution_set st @ concat sols" "list_all (feasible s) sols"
    unfolding kept_from_def by blast
  moreover have "feasible s =
      (\<lambda>sol. length sol = dof s \<and> is_valid s sol \<and>
         (case collision s of None \<Rightarrow> True | Some c \<Rightarrow> coll_validate c sol (dof s)))"
    by (rule ext) (simp add: feasible_def isCollisionFree_def)
  ultimately show ?thesis by auto
qed

theorem collect_all_keeps_only_feasible_witness:
  "\<exists>sols. [1, - 1] = [] @ concat sols \<and>
     list_all (\<lambda>sol. length sol = 2 \<and> is_valid picky_sampler sol \<and> coll_validate picky sol 2) sols"
proof -
  have "collision picky_sampler = Some picky" "dof picky_sampler = 2"
    by (simp_all add: picky_sampler_def line_sampler_sel dof_def)
  with collect_all_keeps_only_feasible[OF picky_pass] show ?thesis
    by (simp add: init_search_def)
qed

subsection \<open>C7: the reach filter comes before inverse kinematics\<close>

text \<open>
  C7: at a rail sample point whose robot-frame target pose has a translation norm strictly
  greater than the robot reach, \<open>ikAt\<close> returns right after the forward-kinematics call:
  the only call it logs is that one, and the solution set is untouched. Accordingly every
  pose that a whole search hands to inverse kinematics is within reach.
\<close>

theorem reach_filter_precedes_inverse_kinematics:
  "(railed_calcFwdKin s rp = Some tf \<and>
    robot_reach s < iso_translation_norm s (iso_mul s (iso_inverse s tf) p) \<longrightarrow>
      ikAt s p rp gb st0 = Inr (False, st0\<lparr>calls := calls st0 @ [FwdKin rp]\<rparr>)) \<and>
   (sample s ss = Inr (ok, st) \<longrightarrow>
      list_all (\<lambda>q. iso_translation_norm s q \<le> robot_reach s) (inv_kin_poses (calls st)))"
proof (intro conjI impI)
  assume "railed_calcFwdKin s rp = Some tf \<and>
    robot_reach s < iso_translation_norm s (iso_mul s (iso_inverse s tf) p)"
  then show "ikAt s p rp gb st0 = Inr (False, st0\<lparr>calls := calls st0 @ [FwdKin rp]\<rparr>)"
    by (simp add: ikAt_def)
next
  assume "sample s ss = Inr (ok, st)"
  then show "list_all (\<lambda>q. iso_translation_norm s q \<le> robot_reach s) (inv_kin_poses (calls st))"
  proof (cases rule: sample_cases)
    case (primary dr)
    show ?thesis
      by (rule tool_poses_loop_within_reach[OF primary(2)]) (simp add: init_search_def)
  next
    case (fallback dr st1 st2)
    have "list_all (\<lambda>q. iso_translation_norm s q \<le> robot_reach s) (inv_kin_poses (calls st1))"
      by (rule tool_poses_loop_within_reach[OF fallback(2)]) (simp add: init_search_def)
    then have "list_all (\<lambda>q. iso_translation_norm s q \<le> robot_reach s) (inv_kin_poses (calls st2))"
      by (intro tool_poses_loop_within_reach[OF fallback(5)]) simp
    then show ?thesis using fallback(6) by simp
  qed
qed

theorem reach_filter_precedes_inverse_kinematics_witness:
  "ikAt far_sampler (21 / 2) [0] False (init_search []) =
     Inr (False, (init_search [])\<lparr>calls := calls (init_search []) @ [FwdKin [0]]\<rparr>) \<and>
   list_all (\<lambda>q. iso_translation_norm far_sampler q \<le> robot_reach far_sampler)
     (inv_kin_poses [FwdKin [0], FwdKin [1 / 2], InvKin 10, FwdKin [1], InvKin (19 / 2)])"
  using reach_filter_precedes_inverse_kinematics[of far_sampler "[0]" 0 "21 / 2" False
      "init_search []" "[]" True
      "\<lparr>solution_set = [1 / 2, 10, 1, 19 / 2], distance = numeric_limits_min,
        calls = [FwdKin [0], FwdKin [1 / 2], InvKin 10, FwdKin [1], InvKin (19 / 2)]\<rparr>"]
    far_run
  by (simp add: far_sampler_def line_sampler_sel)

subsection \<open>C8: the result of the search and the length of the solution set\<close>

text \<open>
  C8: started on an empty solution set, a search that returns gives true exactly when the
  solution set is then non-empty, and the length of that set is a multiple of \<open>dof\<close>; on a
  well-formed configuration the search does return. The length is a multiple of \<open>dof\<close> at
  every point of the search, since the set changes only where a branch is accepted: the full
  joint solution of a branch has length exactly \<open>dof\<close>, and either mode keeps the length
  a multiple of \<open>dof\<close>.
\<close>

theorem search_result_and_solution_set_length:
  "(sample s [] = Inr (ok, st) \<longrightarrow>
      ok = (solution_set st \<noteq> []) \<and> dof s dvd length (solution_set st)) \<and>
   (well_formed s \<longrightarrow> (\<exists>ok' st'. sample s [] = Inr (ok', st'))) \<and>
   (0 < robot_numJoints s \<and> i < length rss div robot_numJoints s \<and>
    length rp = railed_numJoints s \<and> dof s dvd length (solution_set a) \<and>
    ikAt_branch s rp rss gb i a = Inr a' \<longrightarrow>
      length (full_sol s rp rss i) = dof s \<and> dof s dvd length (solution_set a'))"
proof (intro conjI impI)
  assume run: "sample s [] = Inr (ok, st)"
  then show "ok = (solution_set st \<noteq> [])" by (cases rule: sample_cases) simp_all
  from run show "dof s dvd length (solution_set st)"
  proof (cases rule: sample_cases)
    case (primary dr)
    show ?thesis by (rule tool_poses_loop_dvd[OF primary(2)]) (simp add: init_search_def)
  next
    case (fallback dr st1 st2)
    have "dof s dvd length (solution_set st2)"
      by (rule tool_poses_loop_dvd[OF fallback(5)]) (simp add: fallback(3))
    then show ?thesis using fallback(6) by simp
  qed
next
  assume "well_formed s"
  from sample_total[OF this] obtain r where "sample s [] = Inr r" by blast
  then have "sample s [] = Inr (fst r, snd r)" by simp
  then show "\<exists>ok' st'. sample s [] = Inr (ok', st')" by blast
next
  assume h: "0 < robot_numJoints s \<and> i < length rss div robot_numJoints s \<and>
    length rp = railed_numJoints s \<and> dof s dvd length (solution_set a) \<and>
    ikAt_branch s rp rss gb i a = Inr a'"
  then show len: "length (full_sol s rp rss i) = dof s" by (simp add: full_sol_length)
  from h show "dof s dvd length (solution_set a')"
    using ikAt_branch_dvd[of s rp rss gb i a a'] len by simp
qed

theorem search_result_and_solution_set_length_witness:
  "True = ([1 / 2, 10, 1, 19 / 2 :: real] \<noteq> []) \<and>
   dof far_sampler dvd length [1 / 2, 10, 1, 19 / 2 :: real] \<and>
   well_formed far_sampler \<and> (\<exists>ok' st'. sample far_sampler [] = Inr (ok', st')) \<and>
   length (full_sol far_sampler [1] [19 / 2] 0) = dof far_sampler \<and>
   dof far_sampler dvd length [1 / 2, 10, 1, 19 / 2 :: real]"
proof -
  have wf: "well_formed far_sampler" unfolding far_sampler_def by (rule well_formed_line(1))
  have branch: "ikAt_branch far_sampler [1] [19 / 2] False 0
       \<lparr>solution_set = [1 / 2, 10], distance = numeric_limits_min, calls = []\<rparr> =
     Inr \<lparr>solution_set = [1 / 2, 10, 1, 19 / 2], distance = numeric_limits_min, calls = []\<rparr>"
    by (simp add: ikAt_branch_def isCollisionFree_def far_sampler_def line_sampler_sel)
  from search_result_and_solution_set_length[of far_sampler True
      "\<lparr>solution_set = [1 / 2, 10, 1, 19 / 2], distance = numeric_limits_min,
        calls = [FwdKin [0], FwdKin [1 / 2], InvKin 10, FwdKin [1], InvKin (19 / 2)]\<rparr>"
      0 "[19 / 2]" "[1]"
      "\<lparr>solution_set = [1 / 2, 10], distance = numeric_limits_min, calls = []\<rparr>" False
      "\<lparr>solution_set = [1 / 2, 10, 1, 19 / 2], distance = numeric_limits_min, calls = []\<rparr>"]
    far_run wf branch
  show ?thesis by (simp add: far_sampler_def line_sampler_sel dof_def full_sol_def)
qed

subsection \<open>C9: forward-kinematics calls of the collect-all pass\<close>

text \<open>
  C9: when the grid has been built and the robot has a joint, the collect-all pass over the
  tool-pose candidates returns and has called forward kinematics once per element of the
  product of the per-joint grids and per candidate: the product of the grid sizes times the
  number of candidates. Grid sizes 3 and 4 with 2 candidates give 24 calls.
\<close>

theorem primary_pass_forward_kinematics_calls:
  assumes "build_dof_range s = Inr dof_range" and "0 < robot_numJoints s"
  shows "\<exists>st. tool_poses_loop s (tool_pose_sampler s (tool_pose s)) dof_range False
                 (init_search ss) = Inr st \<and>
              fwd_kin_calls st =
                prod_list (map length dof_range) * length (tool_pose_sampler s (tool_pose s))"
proof -
  have len: "length dof_range = railed_numJoints s" by (rule build_dof_range_length[OF assms(1)])
  then have "railed_numJoints s \<le> length dof_range" by simp
  from tool_poses_loop_total[OF assms(2) _ this, of False]
  obtain st where st: "tool_poses_loop s (tool_pose_sampler s (tool_pose s)) dof_range False
                 (init_search ss) = Inr st" by auto
  from tool_poses_loop_fwd_kin_calls[OF st len]
  have "fwd_kin_calls st =
          prod_list (map length dof_range) * length (tool_pose_sampler s (tool_pose s))"
    by (simp add: init_search_def fwd_kin_calls_def)
  then show ?thesis using st by blast
qed

theorem primary_pass_forward_kinematics_calls_witness:
  "map length [[0, 1 / 2, 1], [0, 1 / 3, 2 / 3, 1 :: real]] = [3, 4] \<and>
   length (tool_pose_sampler two_rail_sampler (tool_pose two_rail_sampler)) = 2 \<and>
   (\<exists>st. tool_poses_loop two_rail_sampler
            (tool_pose_sampler two_rail_sampler (tool_pose two_rail_sampler))
            [[0, 1 / 2, 1], [0, 1 / 3, 2 / 3, 1]] False (init_search []) = Inr st \<and>
          fwd_kin_calls st = 24)"
proof -
  have pos: "0 < robot_numJoints two_rail_sampler"
    by (simp add: two_rail_sampler_def line_sampler_sel)
  have two: "length (tool_pose_sampler two_rail_sampler (tool_pose two_rail_sampler)) = 2"
    by (simp add: two_rail_sampler_def line_sampler_sel)
  from primary_pass_forward_kinematics_calls[OF two_rail_grid pos, of "[]"] two
  show ?thesis by simp
qed

subsection \<open>C10: the caller's solutions\<close>

text \<open>
  C10: the search removes nothing from the solution set it is given: what it returns starts
  with the caller's entries. When that set is not empty, a search that returns gives true
  and its final state is the state at the end of the collect-all pass, with no distance
  query: the best-only pass has not run. On a well-formed configuration it does return.
\<close>

theorem caller_solutions_are_kept:
  "(sample s ss = Inr (ok, st) \<longrightarrow> take (length ss) (solution_set st) = ss) \<and>
   (ss \<noteq> [] \<and> sample s ss = Inr (ok, st) \<longrightarrow>
      ok \<and> distance_calls st = 0 \<and>
      (\<exists>dr. build_dof_range s = Inr dr \<and>
            tool_poses_loop s (tool_pose_sampler s (tool_pose s)) dr False (init_search ss)
              = Inr st)) \<and>
   (ss \<noteq> [] \<and> well_formed s \<longrightarrow> (\<exists>st'. sample s ss = Inr (True, st')))"
proof -
  have primary_only:
    "ok' \<and> distance_calls st' = 0 \<and> take (length ss) (solution_set st') = ss \<and>
      (\<exists>dr. build_dof_range s = Inr dr \<and>
            tool_poses_loop s (tool_pose_sampler s (tool_pose s)) dr False (init_search ss)
              = Inr st')"
    if "ss \<noteq> []" and run: "sample s ss = Inr (ok', st')" for ok' st'
    using run
  proof (cases rule: sample_cases)
    case (primary dr)
    from tool_poses_loop_kept[OF primary(2)]
    obtain sols where sols: "solution_set st' = ss @ concat sols"
      unfolding kept_from_def by (auto simp: init_search_def)
    from tool_poses_loop_collect_distance_calls[OF primary(2)]
    have "distance_calls st' = 0" by (simp add: init_search_def distance_calls_def)
    then show ?thesis using primary sols that(1) by auto
  next
    case (fallback dr st1 st2)
    from collect_empty_keeps_length(1)[OF fallback(2,3)] that(1) show ?thesis by simp
  qed
  have kept: "take (length ss) (solution_set st) = ss" if "sample s ss = Inr (ok, st)"
  proof (cases "ss = []")
    case True
    then show ?thesis by simp
  next
    case False
    from primary_only[OF False that] show ?thesis by simp
  qed
  have returns: "\<exists>st'. sample s ss = Inr (True, st')" if "ss \<noteq> []" "well_formed s"
  proof -
    from sample_total[OF that(2)] obtain r where "sample s ss = Inr r" by blast
    then have r: "sample s ss = Inr (fst r, snd r)" by simp
    from primary_only[OF that(1) r] have "fst r" by simp
    then have "sample s ss = Inr (True, snd r)" using r by simp
    then show ?thesis by (rule exI)
  qed
  show ?thesis using kept primary_only returns by blast
qed

theorem caller_solutions_are_kept_witness:
  "take (length [7, 7 :: real]) [7, 7 :: real] = [7, 7] \<and>
   distance_calls
     \<lparr>solution_set = [7, 7], distance = numeric_limits_min,
      calls = [FwdKin [0], InvKin 0, FwdKin [1 / 2], InvKin (- (1 / 2)),
               FwdKin [1], InvKin (- 1 :: real)]\<rparr> = 0 \<and>
   (\<exists>dr. build_dof_range penetrating_sampler = Inr dr \<and>
      tool_poses_loop penetrating_sampler
        (tool_pose_sampler penetrating_sampler (tool_pose penetrating_sampler)) dr False
        (init_search [7, 7]) =
      Inr \<lparr>solution_set = [7, 7], distance = numeric_limits_min,
           calls = [FwdKin [0], InvKin 0, FwdKin [1 / 2], InvKin (- (1 / 2)),
                    FwdKin [1], InvKin (- 1)]\<rparr>) \<and>
   well_formed penetrating_sampler \<and>
   (\<exists>st'. sample penetrating_sampler [7, 7] = Inr (True, st'))"
proof -
  have wf: "well_formed penetrating_sampler"
    unfolding penetrating_sampler_def by (rule well_formed_line(1))
  from caller_solutions_are_kept[of penetrating_sampler "[7, 7]" True
      "\<lparr>solution_set = [7, 7], distance = numeric_limits_min,
        calls = [FwdKin [0], InvKin 0, FwdKin [1 / 2], InvKin (- (1 / 2)),
                 FwdKin [1], InvKin (- 1)]\<rparr>"]
    penetrating_run_nonempty wf
  show ?thesis by simp
qed

end
